theory Spec2Isabelle
  imports
    Complex_Main
    "HOL-Library.Multiset"
    "HOL-Library.Char_ord"
    "HOL-Library.List_Lexorder"
    "HOL-Library.Log_Nat"
begin

section \<open>The scoreboard engine of xcpcio: data model\<close>

text \<open>
  The development embeds \<^verbatim>\<open>packages/libs/core/src/rank.ts\<close> (classes RankOptions and
  Rank) and the award construction of \<^verbatim>\<open>createContest\<close> (contest.ts, whose text is
  in \<^verbatim>\<open>packages/apps/resolver/docker/docker_entry.sh\<close>).  JavaScript numbers that
  hold counters, ranks and whole seconds are natural numbers or integers; the width and
  the cutoff of RankOptions are IEEE 754 doubles, and the products of \<^verbatim>\<open>setWidth\<close> are
  rounded as JavaScript rounds them.  Mutation is explicit state passing: every
  operation returns the updated object.
\<close>

subsection \<open>Submissions\<close>

text \<open>
  Modelled from the spec: the class Submission (submission.ts is not among the sources),
  with the fields rank.ts reads (id, teamId, problemId, timestamp, isIgnore).  The
  verdict predicates \<^verbatim>\<open>isAccepted()\<close>, \<^verbatim>\<open>isRejected()\<close>, \<^verbatim>\<open>isPending()\<close> and
  \<^verbatim>\<open>isNotCalculatedPenaltyStatus()\<close> are parameters: each submission carries the
  answer its own method gives, with no relation assumed between the four.
\<close>

record Submission =
  id_s :: string
  teamId :: string
  problemId :: string
  timestamp :: int
  isIgnore :: bool
  isAccepted :: bool
  isRejected :: bool
  isPending :: bool
  isNotCalculatedPenaltyStatus :: bool

text \<open>
  Modelled from the spec: \<^verbatim>\<open>Submission.compare\<close> (submission.ts is missing), the
  canonical submission order: ascending timestamp, ties broken by the submission id
  (strings in their lexicographic order).
\<close>

definition Submission_compare :: "Submission \<Rightarrow> Submission \<Rightarrow> int" where
  "Submission_compare lhs rhs =
     (if timestamp lhs \<noteq> timestamp rhs then timestamp lhs - timestamp rhs
      else if id_s lhs < id_s rhs then - 1
      else if id_s lhs = id_s rhs then 0
      else 1)"

text \<open>
  \<^verbatim>\<open>Array.prototype.sort(compare)\<close>: a stable sort; \<open>a\<close> comes before \<open>b\<close> when
  \<open>compare a b\<close> is negative and elements that compare equal keep their order.  It is
  embedded as the stable insertion sort (for a comparator that is a total preorder
  every stable sort returns the same sequence).
\<close>

fun sort_insert :: "('a \<Rightarrow> 'a \<Rightarrow> int) \<Rightarrow> 'a \<Rightarrow> 'a list \<Rightarrow> 'a list" where
  "sort_insert cmp x [] = [x]"
| "sort_insert cmp x (y # ys) =
     (if cmp x y \<le> 0 then x # y # ys else y # sort_insert cmp x ys)"

fun sort_js :: "('a \<Rightarrow> 'a \<Rightarrow> int) \<Rightarrow> 'a list \<Rightarrow> 'a list" where
  "sort_js cmp [] = []"
| "sort_js cmp (x # xs) = sort_insert cmp x (sort_js cmp xs)"

text \<open>
  A comparator is consistent when "not after" (a result that is not positive) is a
  total preorder.
\<close>

definition consistent :: "('a \<Rightarrow> 'a \<Rightarrow> int) \<Rightarrow> bool" where
  "consistent cmp \<longleftrightarrow>
     (\<forall>a b. cmp a b \<le> 0 \<or> cmp b a \<le> 0)
     \<and> (\<forall>a b c. cmp a b \<le> 0 \<and> cmp b c \<le> 0 \<longrightarrow> cmp a c \<le> 0)"

text \<open>
  \<^verbatim>\<open>new Map(entries).get(key)\<close> where the entries are made from an array of objects:
  a later entry replaces an earlier one with the same key, so the object found is the
  last one of the array with that key.  The result is the position of that object.
\<close>

fun Map_get :: "string list \<Rightarrow> string \<Rightarrow> nat option" where
  "Map_get [] key = None"
| "Map_get (k # ks) key =
     (case Map_get ks key of
        Some i \<Rightarrow> Some (Suc i)
      | None \<Rightarrow> if k = key then Some 0 else None)"

subsection \<open>Problems and their statistics\<close>

text \<open>
  Modelled from the spec: the class ProblemStatistics (problem.ts is not among the
  sources), with the counters and the two solve lists that rank.ts writes.
\<close>

record ProblemStatistics =
  acceptedNum :: nat
  rejectedNum :: nat
  pendingNum :: nat
  submittedNum :: nat
  attemptedNum :: nat
  ignoreNum :: nat
  firstSolveSubmissions :: "Submission list"
  lastSolveSubmissions :: "Submission list"

text \<open>
  Modelled from the spec: \<^verbatim>\<open>ProblemStatistics.reset()\<close> (problem.ts is missing); the
  counters become zero and the solve lists empty.
\<close>

definition ProblemStatistics_reset :: "ProblemStatistics \<Rightarrow> ProblemStatistics" where
  "ProblemStatistics_reset st =
     \<lparr>acceptedNum = 0, rejectedNum = 0, pendingNum = 0, submittedNum = 0,
      attemptedNum = 0, ignoreNum = 0,
      firstSolveSubmissions = [], lastSolveSubmissions = []\<rparr>"

text \<open>
  Modelled from the spec: the class Problem (problem.ts is missing), with its id and its
  statistics.
\<close>

record Problem =
  id_p :: string
  statistics :: ProblemStatistics

text \<open>
  Modelled from the spec: the class TeamProblemStatistics (problem.ts is missing), with
  the fields that rank.ts touches.  The field \<^verbatim>\<open>problem\<close> refers to a problem object
  of the contest; the reference is the position of that object in
  \<^verbatim>\<open>contest.problems\<close>.
\<close>

record TeamProblemStatistics =
  problem :: nat
  contestPenalty :: int
  submissions_ps :: "Submission list"
  isSolved :: bool
  isFirstSolved :: bool
  isSubmitted :: bool
  solvedTimestamp :: int
  lastSubmitTimestamp :: int
  failedCount :: nat
  pendingCount :: nat
  ignoreCount :: nat
  totalCount :: nat

text \<open>
  Modelled from the spec: \<^verbatim>\<open>new TeamProblemStatistics()\<close> (problem.ts is missing):
  nothing submitted, nothing solved, all counters zero.
\<close>

definition new_TeamProblemStatistics :: TeamProblemStatistics where
  "new_TeamProblemStatistics =
     \<lparr>problem = 0, contestPenalty = 0, submissions_ps = [],
      isSolved = False, isFirstSolved = False, isSubmitted = False,
      solvedTimestamp = 0, lastSubmitTimestamp = 0,
      failedCount = 0, pendingCount = 0, ignoreCount = 0, totalCount = 0\<rparr>"

subsection \<open>Awards\<close>

text \<open>
  Modelled from the spec: the class Award and the enumeration MedalType (award.ts is not
  among the sources), with the fields and the four tiers that createContest uses.
\<close>

datatype MedalType = GOLD | SILVER | BRONZE | HONORABLE

record Award =
  medalType :: MedalType
  minRank :: int
  maxRank :: int

subsection \<open>Contest\<close>

text \<open>
  The class Contest (contest.ts) with the fields that rank.ts reads.
  \<^verbatim>\<open>startTime.unix()\<close> and \<^verbatim>\<open>endTime.unix()\<close> are whole seconds.
  \<^verbatim>\<open>problemsMap\<close> is built by createContest from \<^verbatim>\<open>problems\<close> (line 425 of the
  file that holds contest.ts) and is the function \<open>problemsMap\<close> below.
\<close>

record Contest =
  startTime :: int
  endTime :: int
  penalty_c :: int
  problems :: "Problem list"
  organization_c :: "string option"

definition problemsMap :: "Contest \<Rightarrow> string \<Rightarrow> nat option" where
  "problemsMap c key = Map_get (map id_p (problems c)) key"

subsection \<open>Award construction in createContest\<close>

text \<open>
  A medal configuration of one group is a JSON object from tier names to numbers:
  a finite map.  \<^verbatim>\<open>Object.keys(v).includes(key)\<close> is \<open>v key \<noteq> None\<close>.  The closure
  \<^verbatim>\<open>work\<close> pushes to the array \<^verbatim>\<open>award\<close> and advances the variable \<^verbatim>\<open>rank\<close>; the
  pair of both is its state.
\<close>

definition sentinel :: int where
  "sentinel = 0x3F3F3F3F"

definition work :: "(string \<rightharpoonup> int) \<Rightarrow> string \<Rightarrow> MedalType \<Rightarrow> Award list \<times> int \<Rightarrow> Award list \<times> int" where
  "work v key mt st =
     (case st of (award, rank) \<Rightarrow>
        (case v key of
           Some n \<Rightarrow>
             (award @ [\<lparr>medalType = mt, minRank = rank, maxRank = rank + n - 1\<rparr>], rank + n)
         | None \<Rightarrow> (award, rank)))"

definition createAward :: "(string \<rightharpoonup> int) \<Rightarrow> Award list" where
  "createAward v =
     (case work v ''bronze'' BRONZE (work v ''silver'' SILVER (work v ''gold'' GOLD ([], 1))) of
        (award, rank) \<Rightarrow>
          award @ [\<lparr>medalType = HONORABLE, minRank = rank, maxRank = sentinel\<rparr>])"

text \<open>
  \<^verbatim>\<open>c.awards\<close>: absent when the contest has no medal configuration, otherwise one
  award list for every group of the configuration.
\<close>

definition createContest_awards ::
  "(string \<rightharpoonup> (string \<rightharpoonup> int)) option \<Rightarrow> (string \<rightharpoonup> Award list) option" where
  "createContest_awards medal =
     (case medal of
        None \<Rightarrow> None
      | Some m \<Rightarrow> Some (\<lambda>k. map_option createAward (m k)))"

text \<open>
  The award construction in the words of the specification: walk the tiers in the
  given order from the next free rank; a tier of the configuration takes a block of its
  size, an absent tier takes nothing; the honorable tier closes the list.
\<close>

fun award_walk :: "(string \<rightharpoonup> int) \<Rightarrow> (string \<times> MedalType) list \<Rightarrow> int \<Rightarrow> Award list" where
  "award_walk v [] next_free = [\<lparr>medalType = HONORABLE, minRank = next_free, maxRank = sentinel\<rparr>]"
| "award_walk v ((key, mt) # tiers) next_free =
     (case v key of
        None \<Rightarrow> award_walk v tiers next_free
      | Some n \<Rightarrow>
          \<lparr>medalType = mt, minRank = next_free, maxRank = next_free + n - 1\<rparr>
            # award_walk v tiers (next_free + n))"

subsection \<open>Numbers\<close>

text \<open>
  The width and the cutoff of RankOptions are JavaScript numbers, that is IEEE 754
  binary64 values: a finite double, given by the rational it denotes, an infinity, or
  NaN.  The sign of a zero is dropped: the cutoff is only multiplied, floored and
  compared with \<^verbatim>\<open><=\<close>, and none of these tells the two zeros apart in a way that
  reaches the result.
\<close>

datatype number = Num rat | Infinity | MinusInfinity | NaN

text \<open>
  \<open>pow2 e\<close> is 2 to the power \<open>e\<close>, and \<open>ilog2 x\<close> the binary exponent of a positive
  rational \<open>x\<close>: the \<open>e\<close> with \<open>pow2 e \<le> x < pow2 (e + 1)\<close> (\<open>bitlen n\<close> is the number
  of binary digits of \<open>n\<close>).
\<close>

definition pow2 :: "int \<Rightarrow> rat" where
  "pow2 e = (if 0 \<le> e then 2 ^ nat e else 1 / 2 ^ nat (- e))"

definition ilog2 :: "rat \<Rightarrow> int" where
  "ilog2 x = (if 1 \<le> x then bitlen \<lfloor>x\<rfloor> - 1 else - bitlen (\<lceil>1 / x\<rceil> - 1))"

text \<open>Rounding to the nearest integer, a tie going to the even one.\<close>

definition round_even :: "rat \<Rightarrow> int" where
  "round_even x =
     (let f = \<lfloor>x\<rfloor>; r = x - of_int f in
      if r < 1 / 2 then f else if 1 / 2 < r then f + 1 else if even f then f else f + 1)"

text \<open>
  The rounding of binary64 arithmetic (round to nearest, ties to even): a double with
  the binary exponent \<open>e\<close> is a multiple of \<open>pow2 (e - 52)\<close> (53 significant bits), and
  below the least normal exponent -1022 the spacing stays \<open>pow2 (- 1074)\<close> (subnormal
  numbers).  \<open>fl x\<close> is the multiple nearest to \<open>x\<close>; \<open>round_number\<close> turns a rounded
  value of magnitude \<open>pow2 1024\<close> or more into an infinity (overflow).
\<close>

definition fl :: "rat \<Rightarrow> rat" where
  "fl x =
     (if x = 0 then 0
      else let q = pow2 (max (ilog2 \<bar>x\<bar>) (- 1022) - 52) in of_int (round_even (x / q)) * q)"

definition round_number :: "rat \<Rightarrow> number" where
  "round_number x =
     (let y = fl x in
      if 1024 \<le> ilog2 \<bar>y\<bar> then (if 0 < y then Infinity else MinusInfinity) else Num y)"

text \<open>
  The operator \<^verbatim>\<open>*\<close> on numbers: the exact product of two finite doubles, rounded;
  NaN if an operand is NaN or the operands are a zero and an infinity; otherwise the
  infinity with the sign of the product.
\<close>

fun times_number :: "number \<Rightarrow> number \<Rightarrow> number" where
  "times_number (Num x) (Num y) = round_number (x * y)"
| "times_number NaN b = NaN"
| "times_number a NaN = NaN"
| "times_number (Num x) Infinity =
     (if x = 0 then NaN else if 0 < x then Infinity else MinusInfinity)"
| "times_number (Num x) MinusInfinity =
     (if x = 0 then NaN else if 0 < x then MinusInfinity else Infinity)"
| "times_number Infinity (Num y) =
     (if y = 0 then NaN else if 0 < y then Infinity else MinusInfinity)"
| "times_number MinusInfinity (Num y) =
     (if y = 0 then NaN else if 0 < y then MinusInfinity else Infinity)"
| "times_number Infinity Infinity = Infinity"
| "times_number MinusInfinity MinusInfinity = Infinity"
| "times_number Infinity MinusInfinity = MinusInfinity"
| "times_number MinusInfinity Infinity = MinusInfinity"

text \<open>
  \<^verbatim>\<open>Math.floor\<close>: the greatest whole number below a finite number (a double again);
  an infinity and NaN are returned as they are.
\<close>

fun Math_floor :: "number \<Rightarrow> number" where
  "Math_floor (Num x) = Num (of_int \<lfloor>x\<rfloor>)"
| "Math_floor a = a"

text \<open>
  The operator \<^verbatim>\<open><=\<close> on numbers: false if an operand is NaN, otherwise the order
  of the extended line.
\<close>

fun less_eq_number :: "number \<Rightarrow> number \<Rightarrow> bool" where
  "less_eq_number (Num x) (Num y) = (x \<le> y)"
| "less_eq_number NaN b = False"
| "less_eq_number a NaN = False"
| "less_eq_number MinusInfinity b = True"
| "less_eq_number a Infinity = True"
| "less_eq_number a b = False"

text \<open>The literal \<^verbatim>\<open>0.0001\<close>: the double nearest to one ten-thousandth.\<close>

definition double_0_0001 :: rat where
  "double_0_0001 = fl (1 / 10000)"

subsection \<open>RankOptions\<close>

text \<open>
  The fields \<^verbatim>\<open>width\<close> and \<^verbatim>\<open>timestamp\<close> are numbers.  In \<^verbatim>\<open>setWidth\<close> (line 24)
  the two \<^verbatim>\<open>unix()\<close> values are whole seconds, held exactly; their difference and
  the two products, taken from left to right, are each rounded to a double before
  \<^verbatim>\<open>Math.floor\<close> is applied.
\<close>

record RankOptions =
  enableFilterSubmissionsByTimestamp :: bool
  width :: number
  timestamp_o :: number

definition new_RankOptions :: RankOptions where
  "new_RankOptions =
     \<lparr>enableFilterSubmissionsByTimestamp = False, width = Num 0, timestamp_o = Num 0\<rparr>"

definition setWidth :: "number \<Rightarrow> Contest \<Rightarrow> RankOptions \<Rightarrow> RankOptions" where
  "setWidth w c opts =
     opts\<lparr>width := w,
          timestamp_o :=
            Math_floor
              (times_number
                 (times_number (Num (fl (of_int (endTime c - startTime c)))) w)
                 (Num double_0_0001)),
          enableFilterSubmissionsByTimestamp := True\<rparr>"

definition disableFilterSubmissionByTimestamp :: "RankOptions \<Rightarrow> RankOptions" where
  "disableFilterSubmissionByTimestamp opts = opts\<lparr>enableFilterSubmissionsByTimestamp := False\<rparr>"

subsection \<open>Teams\<close>

text \<open>
  Modelled from the spec: the class Team (team.ts is not among the sources), with the
  fields that rank.ts touches.  \<^verbatim>\<open>problemStatisticsMap\<close> is rebuilt from
  \<^verbatim>\<open>problemStatistics\<close> whenever that is assigned (line 73); since the statistics
  are made from \<^verbatim>\<open>contest.problems\<close> in order, the entry of a problem id is at the
  position \<open>problemsMap\<close> gives.
\<close>

record Team =
  id_t :: string
  organization :: string
  problemStatistics :: "TeamProblemStatistics list"
  submissions_t :: "Submission list"
  solvedProblemNum :: nat
  penalty :: int
  rank :: nat
  organizationRank :: nat
  lastSolvedProblemTimestamp :: int

text \<open>
  Modelled from the spec: \<^verbatim>\<open>Team.reset()\<close> (team.ts is missing).  It clears
  everything a build derives; the specification does not give the initial values, zero
  and the empty list are taken.
\<close>

definition Team_reset :: "Team \<Rightarrow> Team" where
  "Team_reset t =
     t\<lparr>problemStatistics := [], submissions_t := [], solvedProblemNum := 0, penalty := 0,
       rank := 0, organizationRank := 0, lastSolvedProblemTimestamp := 0\<rparr>"

text \<open>
  Modelled from the spec: \<^verbatim>\<open>Team.calcSolvedData()\<close> (team.ts is missing), with the
  penalty model of the specification: a solved problem contributes its solving time
  plus the penalty unit for every failed attempt before it, an unsolved problem nothing.
\<close>

definition penalty_ps :: "TeamProblemStatistics \<Rightarrow> int" where
  "penalty_ps ps =
     (if isSolved ps then solvedTimestamp ps + contestPenalty ps * int (failedCount ps) else 0)"

definition calcSolvedData :: "Team \<Rightarrow> Team" where
  "calcSolvedData t =
     t\<lparr>solvedProblemNum := length (filter isSolved (problemStatistics t)),
       penalty := sum_list (map penalty_ps (problemStatistics t))\<rparr>"

text \<open>
  Modelled from the spec: \<^verbatim>\<open>Team.isEqualRank\<close> (team.ts is missing): the ranking
  keys, solved count and penalty, are equal.
\<close>

definition isEqualRank :: "Team \<Rightarrow> Team \<Rightarrow> bool" where
  "isEqualRank t otherTeam \<longleftrightarrow>
     solvedProblemNum t = solvedProblemNum otherTeam \<and> penalty t = penalty otherTeam"

text \<open>
  Modelled from the spec: \<^verbatim>\<open>Team.compare\<close> (team.ts is missing): more solved
  problems first, then less penalty.  The specification leaves the rest of the chain
  open; it is the parameter \<open>tb\<close>.
\<close>

definition Team_compare :: "(Team \<Rightarrow> Team \<Rightarrow> int) \<Rightarrow> Team \<Rightarrow> Team \<Rightarrow> int" where
  "Team_compare tb lhs rhs =
     (if solvedProblemNum lhs \<noteq> solvedProblemNum rhs
        then int (solvedProblemNum rhs) - int (solvedProblemNum lhs)
      else if penalty lhs \<noteq> penalty rhs then penalty lhs - penalty rhs
      else tb lhs rhs)"

subsection \<open>Rank\<close>

text \<open>
  A Rank owns team objects that two structures refer to: the array \<^verbatim>\<open>teams\<close>, which
  buildRank sorts in place, and \<^verbatim>\<open>teamsMap\<close>, which keeps the objects it was built
  with.  The objects are the list \<open>team_objects\<close> in the order of construction; \<open>teams\<close>
  is the array as a list of positions in it, and \<open>teamsMap\<close> is a function of the
  objects (no operation changes a team id).  \<^verbatim>\<open>rankStatistics\<close> is its histogram
  \<open>teamSolvedNum\<close>.  The contest is the shared object whose problem statistics
  buildRank writes.
\<close>

record Rank =
  contest :: Contest
  team_objects :: "Team list"
  teams :: "nat list"
  submissions :: "Submission list"
  teamSolvedNum :: "nat list"
  options :: RankOptions

definition teamsMap :: "Rank \<Rightarrow> string \<Rightarrow> nat option" where
  "teamsMap r key = Map_get (map id_t (team_objects r)) key"

definition new_Rank :: "Contest \<Rightarrow> Team list \<Rightarrow> Submission list \<Rightarrow> Rank" where
  "new_Rank c ts ss =
     \<lparr>contest = c, team_objects = ts, teams = [0..<length ts],
      submissions = sort_js Submission_compare ss,
      teamSolvedNum = [], options = new_RankOptions\<rparr>"

definition getSubmissions :: "Rank \<Rightarrow> Submission list" where
  "getSubmissions r =
     (if enableFilterSubmissionsByTimestamp (options r) = False then submissions r
      else sort_js Submission_compare
             (filter (\<lambda>s. less_eq_number (Num (of_int (timestamp s))) (timestamp_o (options r)))
                (submissions r)))"

text \<open>
  The invariant of a Rank: \<open>teams\<close> holds every team object once, and the submissions
  are in the canonical order.  The constructor establishes it and every operation
  keeps it.
\<close>

definition Rank_inv :: "Rank \<Rightarrow> bool" where
  "Rank_inv r \<longleftrightarrow>
     distinct (teams r) \<and> set (teams r) = {..<length (team_objects r)}
     \<and> sorted_wrt (\<lambda>a b. Submission_compare a b \<le> 0) (submissions r)"

subsection \<open>buildRank\<close>

text \<open>Lines 62 to 74: every team is reset and gets fresh statistics, one per problem.\<close>

definition resetTeam :: "Contest \<Rightarrow> Team \<Rightarrow> Team" where
  "resetTeam c t =
     (Team_reset t)\<lparr>problemStatistics :=
        map (\<lambda>k. new_TeamProblemStatistics\<lparr>problem := k, contestPenalty := penalty_c c\<rparr>)
          [0..<length (problems c)]\<rparr>"

definition resetTeams :: "Rank \<Rightarrow> Rank" where
  "resetTeams r =
     r\<lparr>team_objects :=
         fold (\<lambda>i st. st[i := resetTeam (contest r) (st ! i)]) (teams r) (team_objects r)\<rparr>"

text \<open>Lines 76 to 78.\<close>

definition resetProblems :: "Rank \<Rightarrow> Rank" where
  "resetProblems r =
     r\<lparr>contest := (contest r)\<lparr>problems :=
         map (\<lambda>p. p\<lparr>statistics := ProblemStatistics_reset (statistics p)\<rparr>)
           (problems (contest r))\<rparr>\<rparr>"

text \<open>
  Lines 93 to 142, the body of the replay loop once the team, its statistics for the
  problem and the problem are found: the three objects it writes, before and after.
\<close>

definition replay_body ::
  "Submission \<Rightarrow> Team \<times> TeamProblemStatistics \<times> ProblemStatistics
     \<Rightarrow> Team \<times> TeamProblemStatistics \<times> ProblemStatistics" where
  "replay_body s obj =
     (case obj of (team0, ps0, st0) \<Rightarrow>
       (let ps1 = ps0\<lparr>submissions_ps := submissions_ps ps0 @ [s]\<rparr>;
            team1 = team0\<lparr>submissions_t := submissions_t team0 @ [s]\<rparr>;
            st1 = st0\<lparr>submittedNum := submittedNum st0 + 1\<rparr>
        in if isSolved ps1 then (team1, ps1, st1)
           else if isIgnore s \<or> isNotCalculatedPenaltyStatus s then
             (team1, ps1\<lparr>ignoreCount := ignoreCount ps1 + 1\<rparr>, st1\<lparr>ignoreNum := ignoreNum st1 + 1\<rparr>)
           else
             (let ps2 = ps1\<lparr>isSubmitted := True, lastSubmitTimestamp := timestamp s,
                            totalCount := totalCount ps1 + 1\<rparr>;
                  (team3, ps3, st3) =
                    (if isAccepted s then
                       (let ps_a = ps2\<lparr>isSolved := True, solvedTimestamp := timestamp s\<rparr>;
                            st_a = st1\<lparr>acceptedNum := acceptedNum st1 + 1,
                                       attemptedNum := attemptedNum st1 + (failedCount ps_a + 1)\<rparr>;
                            first = (length (firstSolveSubmissions st_a) = 0
                                     \<or> timestamp (firstSolveSubmissions st_a
                                          ! (length (firstSolveSubmissions st_a) - 1)) = timestamp s);
                            ps_b = (if first then ps_a\<lparr>isFirstSolved := True\<rparr> else ps_a);
                            st_b = (if first
                                    then st_a\<lparr>firstSolveSubmissions := firstSolveSubmissions st_a @ [s]\<rparr>
                                    else st_a)
                        in (team1\<lparr>lastSolvedProblemTimestamp := timestamp s\<rparr>,
                            ps_b, st_b\<lparr>lastSolveSubmissions := [s]\<rparr>))
                     else (team1, ps2, st1));
                  (ps4, st4) =
                    (if isRejected s
                     then (ps3\<lparr>failedCount := failedCount ps3 + 1\<rparr>, st3\<lparr>rejectedNum := rejectedNum st3 + 1\<rparr>)
                     else (ps3, st3));
                  (ps5, st5) =
                    (if isPending s
                     then (ps4\<lparr>pendingCount := pendingCount ps4 + 1\<rparr>, st4\<lparr>pendingNum := pendingNum st4 + 1\<rparr>)
                     else (ps4, st4))
              in (team3, ps5, st5))))"

text \<open>
  Lines 80 to 143, one iteration: a submission whose team or problem is unknown is
  passed over; otherwise the body runs on the team found, on its statistics for the
  problem and on the statistics of the problem, and the three objects are written back.
\<close>

definition replaySubmission :: "Submission \<Rightarrow> Rank \<Rightarrow> Rank" where
  "replaySubmission s r =
     (case teamsMap r (teamId s) of
        None \<Rightarrow> r
      | Some i \<Rightarrow>
          (case problemsMap (contest r) (problemId s) of
             None \<Rightarrow> r
           | Some j \<Rightarrow>
               (let team = team_objects r ! i;
                    p = problems (contest r) ! j
                in case replay_body s (team, problemStatistics team ! j, statistics p) of
                     (team', ps', st') \<Rightarrow>
                       r\<lparr>team_objects := (team_objects r)
                            [i := team'\<lparr>problemStatistics := (problemStatistics team')[j := ps']\<rparr>],
                         contest := (contest r)\<lparr>problems :=
                            (problems (contest r))[j := p\<lparr>statistics := st'\<rparr>]\<rparr>\<rparr>)))"

definition replay :: "Submission list \<Rightarrow> Rank \<Rightarrow> Rank" where
  "replay ss r = fold replaySubmission ss r"

text \<open>Line 145.\<close>

definition calcTeams :: "Rank \<Rightarrow> Rank" where
  "calcTeams r =
     r\<lparr>team_objects :=
         fold (\<lambda>i st. st[i := calcSolvedData (st ! i)]) (teams r) (team_objects r)\<rparr>"

text \<open>Line 146: the array of teams is sorted by the comparator on the objects.\<close>

definition sortTeams :: "(Team \<Rightarrow> Team \<Rightarrow> int) \<Rightarrow> Rank \<Rightarrow> Rank" where
  "sortTeams tb r =
     r\<lparr>teams := sort_js (\<lambda>a b. Team_compare tb (team_objects r ! a) (team_objects r ! b)) (teams r)\<rparr>"

text \<open>
  Lines 148 to 162: the walk over the sorted teams with the counter \<^verbatim>\<open>rank\<close> and the
  previous team \<^verbatim>\<open>preTeam\<close> (\<open>None\<close> is \<^verbatim>\<open>null\<close>).
\<close>

fun assignRank :: "nat list \<Rightarrow> nat \<Rightarrow> nat option \<Rightarrow> Team list \<Rightarrow> Team list" where
  "assignRank [] rk preTeam st = st"
| "assignRank (t # ts) rk preTeam st =
     (let st1 = st[t := (st ! t)\<lparr>rank := rk\<rparr>];
          st2 = (case preTeam of
                   None \<Rightarrow> st1
                 | Some pre \<Rightarrow>
                     if isEqualRank (st1 ! t) (st1 ! pre)
                     then st1[t := (st1 ! t)\<lparr>rank := rank (st1 ! pre)\<rparr>]
                     else st1)
      in assignRank ts (rk + 1) (Some t) st2)"

text \<open>Lines 164 to 187: the same walk over the first team of every organization.\<close>

fun assignOrganizationRank ::
  "nat list \<Rightarrow> nat \<Rightarrow> nat option \<Rightarrow> string set \<Rightarrow> Team list \<Rightarrow> Team list" where
  "assignOrganizationRank [] rk preTeam se st = st"
| "assignOrganizationRank (t # ts) rk preTeam se st =
     (let org = organization (st ! t)
      in if org \<in> se then assignOrganizationRank ts rk preTeam se st
         else
           (let st1 = st[t := (st ! t)\<lparr>organizationRank := rk\<rparr>];
                st2 = (case preTeam of
                         None \<Rightarrow> st1
                       | Some pre \<Rightarrow>
                           if isEqualRank (st1 ! t) (st1 ! pre)
                           then st1[t := (st1 ! t)\<lparr>organizationRank := organizationRank (st1 ! pre)\<rparr>]
                           else st1)
            in assignOrganizationRank ts (rk + 1) (Some t) (insert org se) st2))"

definition rankTeams :: "Rank \<Rightarrow> Rank" where
  "rankTeams r = r\<lparr>team_objects := assignRank (teams r) 1 None (team_objects r)\<rparr>"

text \<open>\<^verbatim>\<open>if (this.contest.organization)\<close>: the field is present and not the empty string.\<close>

definition rankOrganizations :: "Rank \<Rightarrow> Rank" where
  "rankOrganizations r =
     (case organization_c (contest r) of
        None \<Rightarrow> r
      | Some name \<Rightarrow>
          if name = [] then r
          else r\<lparr>team_objects := assignOrganizationRank (teams r) 1 None {} (team_objects r)\<rparr>)"

text \<open>
  Lines 190 to 197: the histogram.  The index is the number of solved problems of a
  team, which calcSolvedData keeps below the length of the array.
\<close>

definition buildStatistics :: "Rank \<Rightarrow> Rank" where
  "buildStatistics r =
     r\<lparr>teamSolvedNum :=
         fold (\<lambda>t h. h[solvedProblemNum (team_objects r ! t)
                         := h ! solvedProblemNum (team_objects r ! t) + 1])
           (teams r) (replicate (length (problems (contest r)) + 1) 0)\<rparr>"

text \<open>
  buildRank.  The loop of line 80 runs over the result of one call of getSubmissions;
  the value returned is the instance, in its new state.
\<close>

definition buildRank :: "(Team \<Rightarrow> Team \<Rightarrow> int) \<Rightarrow> Rank \<Rightarrow> Rank" where
  "buildRank tb r =
     (let r0 = resetProblems (resetTeams r)
      in buildStatistics (rankOrganizations (rankTeams (sortTeams tb (calcTeams
           (replay (getSubmissions r0) r0))))))"

subsection \<open>Notions for the replay\<close>

text \<open>
  The statistics of the team object at position \<open>i\<close> for the problem at position \<open>j\<close>.
\<close>

definition team_stats :: "Rank \<Rightarrow> nat \<Rightarrow> nat \<Rightarrow> TeamProblemStatistics" where
  "team_stats r i j = problemStatistics (team_objects r ! i) ! j"

text \<open>
  The first-solve list of the problem at position \<open>j\<close>.
\<close>

definition first_solves :: "Rank \<Rightarrow> nat \<Rightarrow> Submission list" where
  "first_solves r j = firstSolveSubmissions (statistics (problems (contest r) ! j))"

text \<open>
  All submissions of a list have the same timestamp.
\<close>

definition same_timestamp :: "Submission list \<Rightarrow> bool" where
  "same_timestamp ss \<longleftrightarrow> (\<forall>x\<in>set ss. \<forall>y\<in>set ss. timestamp x = timestamp y)"

text \<open>
  Every team object has one statistics entry per problem of the contest.
\<close>

definition shaped :: "Rank \<Rightarrow> bool" where
  "shaped r \<longleftrightarrow>
     (\<forall>i<length (team_objects r).
        length (problemStatistics (team_objects r ! i)) = length (problems (contest r)))"

text \<open>
  The relation between the first-solve lists and the solves recorded in the team
  statistics: a solved problem has a first-solve list that is not empty and whose
  timestamps are at most the solving time; an unsolved entry is not marked first-solved;
  every entry of a first-solve list has the solving time of some team.
\<close>

definition first_solve_inv :: "Rank \<Rightarrow> bool" where
  "first_solve_inv r \<longleftrightarrow>
     shaped r
     \<and> (\<forall>j<length (problems (contest r)).
          (\<forall>i<length (team_objects r).
             (isSolved (team_stats r i j) \<longrightarrow>
                first_solves r j \<noteq> []
                \<and> (\<forall>x\<in>set (first_solves r j). timestamp x \<le> solvedTimestamp (team_stats r i j)))
             \<and> (\<not> isSolved (team_stats r i j) \<longrightarrow> \<not> isFirstSolved (team_stats r i j)))
          \<and> (\<forall>x\<in>set (first_solves r j).
               \<exists>i<length (team_objects r).
                 isSolved (team_stats r i j) \<and> solvedTimestamp (team_stats r i j) = timestamp x))"

text \<open>
  Every solve recorded so far happened at \<open>T\<close> or before.
\<close>

definition solves_before :: "Rank \<Rightarrow> int \<Rightarrow> bool" where
  "solves_before r T \<longleftrightarrow>
     (\<forall>i<length (team_objects r). \<forall>j<length (problems (contest r)).
        isSolved (team_stats r i j) \<longrightarrow> solvedTimestamp (team_stats r i j) \<le> T)"

text \<open>
  The state of buildRank after the resets and the replay of the submissions \<open>pre\<close>.
\<close>

definition build_state :: "Rank \<Rightarrow> Submission list \<Rightarrow> Rank" where
  "build_state r pre = replay pre (resetProblems (resetTeams r))"

text \<open>
  The timestamp of \<open>s\<close> is at most every solving timestamp recorded so far for the
  problem at position \<open>j\<close>: it is the earliest seen so far, or ties the earliest.
\<close>

definition earliest_or_tie :: "Rank \<Rightarrow> nat \<Rightarrow> Submission \<Rightarrow> bool" where
  "earliest_or_tie \<sigma> j s \<longleftrightarrow>
     (\<forall>i<length (team_objects \<sigma>).
        isSolved (team_stats \<sigma> i j) \<longrightarrow> timestamp s \<le> solvedTimestamp (team_stats \<sigma> i j))"

subsection \<open>Notions for the ranking\<close>

text \<open>
  The order of the ranking keys: more solved problems, or as many and not more penalty.
\<close>

definition better_or_equal :: "Team \<Rightarrow> Team \<Rightarrow> bool" where
  "better_or_equal x y \<longleftrightarrow>
     solvedProblemNum y < solvedProblemNum x
     \<or> (solvedProblemNum x = solvedProblemNum y \<and> penalty x \<le> penalty y)"

text \<open>
  The team at position \<open>k\<close> of the array \<^verbatim>\<open>teams\<close>.
\<close>

definition ranked :: "Rank \<Rightarrow> nat \<Rightarrow> Team" where
  "ranked r k = team_objects r ! (teams r ! k)"

subsection \<open>A small contest\<close>

text \<open>
  Concrete objects on which the theorems below are instantiated: a contest of 18000
  seconds with the problems A and B, three teams, and submissions with a plain verdict;
  the second and the third solve A at the same time, the sixth comes after its team has
  solved the problem, the seventh names a team that does not exist.  \<open>ex_state\<close> is the state of a build after five submissions.
\<close>

definition ex_submission :: "string \<Rightarrow> string \<Rightarrow> string \<Rightarrow> int \<Rightarrow> bool \<Rightarrow> Submission" where
  "ex_submission i t p ts accepted =
     \<lparr>id_s = i, teamId = t, problemId = p, timestamp = ts, isIgnore = False,
      isAccepted = accepted, isRejected = \<not> accepted, isPending = False,
      isNotCalculatedPenaltyStatus = False\<rparr>"

definition ex_team :: "string \<Rightarrow> string \<Rightarrow> Team" where
  "ex_team i org =
     \<lparr>id_t = i, organization = org, problemStatistics = [], submissions_t = [],
      solvedProblemNum = 0, penalty = 0, rank = 0, organizationRank = 0,
      lastSolvedProblemTimestamp = 0\<rparr>"

definition ex_problem :: "string \<Rightarrow> Problem" where
  "ex_problem i =
     \<lparr>id_p = i,
      statistics = \<lparr>acceptedNum = 0, rejectedNum = 0, pendingNum = 0, submittedNum = 0,
        attemptedNum = 0, ignoreNum = 0, firstSolveSubmissions = [], lastSolveSubmissions = []\<rparr>\<rparr>"

definition ex_contest :: Contest where
  "ex_contest =
     \<lparr>startTime = 100, endTime = 18100, penalty_c = 1200,
      problems = [ex_problem ''A'', ex_problem ''B''], organization_c = Some ''School''\<rparr>"

definition ex_submissions :: "Submission list" where
  "ex_submissions =
     [ex_submission ''1'' ''t1'' ''A'' 1000 False,
      ex_submission ''2'' ''t1'' ''A'' 3000 True,
      ex_submission ''3'' ''t3'' ''A'' 3000 True,
      ex_submission ''4'' ''t3'' ''B'' 4000 True,
      ex_submission ''5'' ''t2'' ''A'' 4200 True,
      ex_submission ''6'' ''t1'' ''A'' 6000 False,
      ex_submission ''7'' ''zz'' ''A'' 7000 True]"

definition ex_rank :: Rank where
  "ex_rank =
     \<lparr>contest = ex_contest,
      team_objects = [ex_team ''t1'' ''x'', ex_team ''t2'' ''y'', ex_team ''t3'' ''x''],
      teams = [0, 1, 2],
      submissions = ex_submissions,
      teamSolvedNum = [], options = new_RankOptions\<rparr>"

definition ex_state :: Rank where
  "ex_state = replay (take 5 ex_submissions) (resetProblems (resetTeams ex_rank))"

section \<open>Properties\<close>

subsection \<open>The rounding of doubles\<close>

lemma pow2_pos: "0 < pow2 e"
  by (simp add: pow2_def)

lemma pow2_Suc: "pow2 (e + 1) = 2 * pow2 e"
proof (cases "0 \<le> e")
  case True
  then show ?thesis
    by (simp add: pow2_def nat_add_distrib)
next
  case False
  then have "nat (- e) = Suc (nat (- (e + 1)))"
    by simp
  then have "(2::rat) ^ nat (- e) = 2 * 2 ^ nat (- (e + 1))"
    by simp
  with False show ?thesis
    by (simp add: pow2_def)
qed

text \<open>\<open>ilog2\<close> is the binary exponent of a positive rational.\<close>

lemma ilog2_bounds:
  assumes "0 < x"
  shows "pow2 (ilog2 x) \<le> x" and "x < pow2 (ilog2 x + 1)"
proof -
  have "pow2 (ilog2 x) \<le> x \<and> x < pow2 (ilog2 x + 1)"
  proof (cases "1 \<le> x")
    case True
    define n where "n = \<lfloor>x\<rfloor>"
    have n: "0 < n"
      using True by (simp add: n_def)
    have b: "1 \<le> bitlen n"
      using n bitlen_nonneg [of n] bitlen_eq_zero_iff [of n] by linarith
    from bitlen_bounds [OF n] have lo: "2 ^ nat (bitlen n - 1) \<le> n" and hi: "n < 2 ^ nat (bitlen n)"
      by simp_all
    have i: "ilog2 x = bitlen n - 1"
      using True by (simp add: ilog2_def n_def)
    have "pow2 (ilog2 x) = 2 ^ nat (bitlen n - 1)"
      using b by (simp add: i pow2_def)
    also have "\<dots> \<le> of_int n"
      using lo by simp
    also have "\<dots> \<le> x"
      by (simp add: n_def)
    finally have 1: "pow2 (ilog2 x) \<le> x" .
    have "x < of_int (n + 1)"
      unfolding n_def by linarith
    also have "\<dots> \<le> 2 ^ nat (bitlen n)"
      using hi of_int_le_iff [of "n + 1" "2 ^ nat (bitlen n)", where ?'a = rat] by simp
    also have "\<dots> = pow2 (ilog2 x + 1)"
      using b by (simp add: i pow2_def)
    finally have 2: "x < pow2 (ilog2 x + 1)" .
    from 1 2 show ?thesis ..
  next
    case False
    define m where "m = \<lceil>1 / x\<rceil> - 1"
    from False assms have inv: "1 < 1 / x"
      by simp
    then have m: "0 < m"
      unfolding m_def by linarith
    have b: "1 \<le> bitlen m"
      using m bitlen_nonneg [of m] bitlen_eq_zero_iff [of m] by linarith
    from bitlen_bounds [OF m] have lo: "2 ^ nat (bitlen m - 1) \<le> m" and hi: "m < 2 ^ nat (bitlen m)"
      by simp_all
    have i: "ilog2 x = - bitlen m"
      using False by (simp add: ilog2_def m_def)
    have "1 / x \<le> of_int (m + 1)"
      unfolding m_def by simp
    also have "\<dots> \<le> 2 ^ nat (bitlen m)"
      using hi of_int_le_iff [of "m + 1" "2 ^ nat (bitlen m)", where ?'a = rat] by simp
    finally have "1 / x \<le> 2 ^ nat (bitlen m)" .
    then have "1 \<le> 2 ^ nat (bitlen m) * x"
      using assms by (simp add: field_simps)
    then have 1: "pow2 (ilog2 x) \<le> x"
      using b by (simp add: i pow2_def field_simps)
    have "(2::rat) ^ nat (bitlen m - 1) \<le> of_int m"
      using lo by simp
    also have "\<dots> < 1 / x"
      unfolding m_def by linarith
    finally have "2 ^ nat (bitlen m - 1) < 1 / x" .
    then have lt: "2 ^ nat (bitlen m - 1) * x < 1"
      using assms by (simp add: field_simps)
    have 2: "x < pow2 (ilog2 x + 1)"
    proof (cases "bitlen m = 1")
      case True
      with lt show ?thesis
        by (simp add: i pow2_def)
    next
      case False
      with b have "nat (- (- bitlen m + 1)) = nat (bitlen m - 1)" "\<not> 0 \<le> - bitlen m + 1"
        by simp_all
      with lt show ?thesis
        by (simp add: i pow2_def field_simps)
    qed
    from 1 2 show ?thesis ..
  qed
  then show "pow2 (ilog2 x) \<le> x" and "x < pow2 (ilog2 x + 1)"
    by simp_all
qed

lemma round_even_error: "\<bar>of_int (round_even x) - x\<bar> \<le> 1 / 2"
proof -
  have "of_int \<lfloor>x\<rfloor> \<le> x" "x < of_int \<lfloor>x\<rfloor> + 1"
    by linarith+
  then show ?thesis
    by (auto simp: round_even_def Let_def abs_le_iff)
qed

text \<open>
  \<open>fl x\<close> is a multiple of the spacing at the exponent of \<open>x\<close>, at most half a spacing
  away from \<open>x\<close>.
\<close>

lemma fl_error: "\<bar>fl x - x\<bar> \<le> pow2 (max (ilog2 \<bar>x\<bar>) (- 1022) - 52) / 2"
proof (cases "x = 0")
  case True
  then show ?thesis
    using pow2_pos [of "max (ilog2 \<bar>x\<bar>) (- 1022) - 52"] by (simp add: fl_def)
next
  case False
  define q where "q = pow2 (max (ilog2 \<bar>x\<bar>) (- 1022) - 52)"
  have q: "0 < q"
    by (simp add: q_def pow2_pos)
  have "fl x - x = (of_int (round_even (x / q)) - x / q) * q"
    using False q by (simp add: fl_def q_def [symmetric] Let_def field_simps)
  then have "\<bar>fl x - x\<bar> = \<bar>of_int (round_even (x / q)) - x / q\<bar> * q"
    using q by (simp add: abs_mult)
  also have "\<dots> \<le> 1 / 2 * q"
    using round_even_error [of "x / q"] q by (intro mult_right_mono) simp_all
  finally show ?thesis
    by (simp add: q_def)
qed

lemma double_0_0001_value: "double_0_0001 = 7378697629483821 / 73786976294838206464"
  by code_simp

lemma less_eq_number_of_int [simp]:
  "less_eq_number (Num (of_int t)) (Num (of_int C)) = (t \<le> C)"
  by simp

lemma round_number_zero: "round_number 0 = Num 0"
  by (simp add: round_number_def fl_def ilog2_def bitlen_def)

lemma times_number_zero: "times_number (Num x) (Num 0) = Num 0" "times_number (Num 0) (Num x) = Num 0"
  by (simp_all add: round_number_zero)

lemma pow2_powi: "pow2 e = 2 powi e"
  by (simp add: pow2_def power_int_def inverse_eq_divide power_one_over)

lemma pow2_less_imp: "pow2 a < pow2 b \<Longrightarrow> a < b"
proof (rule ccontr)
  assume lt: "pow2 a < pow2 b" and "\<not> a < b"
  then have "b \<le> a"
    by simp
  then have "pow2 b \<le> pow2 a"
    unfolding pow2_powi by (intro power_int_increasing) simp_all
  with lt show False
    by simp
qed

lemma pow2_add: "pow2 (a + b) = pow2 a * pow2 b"
  unfolding pow2_powi by (simp add: power_int_add)

lemma pow2_nat: "0 \<le> e \<Longrightarrow> pow2 e = of_int (2 ^ nat e)"
  by (simp add: pow2_def)

lemma round_even_near:
  assumes "\<bar>t\<bar> < 1 / 2"
  shows "round_even (of_int M + t) = M"
proof (cases "0 \<le> t")
  case True
  with assms have "\<lfloor>of_int M + t\<rfloor> = M"
    by (intro floor_unique) simp_all
  with True assms show ?thesis
    by (simp add: round_even_def Let_def)
next
  case False
  with assms have "\<lfloor>of_int M + t\<rfloor> = M - 1"
    by (intro floor_unique) simp_all
  with False assms show ?thesis
    by (simp add: round_even_def Let_def)
qed

text \<open>
  A rational below \<open>pow2 53\<close> in magnitude that is closer to a whole number \<open>k\<close> than
  half the spacing of the doubles at its exponent rounds to \<open>k\<close>.
\<close>

lemma fl_near:
  assumes x: "1 \<le> \<bar>x\<bar>" "\<bar>x\<bar> < pow2 53"
    and near: "\<bar>x - of_int k\<bar> * pow2 (52 - ilog2 \<bar>x\<bar>) < 1 / 2"
  shows "fl x = of_int k"
proof -
  define e where "e = ilog2 \<bar>x\<bar>"
  from x have pos: "0 < \<bar>x\<bar>"
    by simp
  from ilog2_bounds [OF pos] have lo: "pow2 e \<le> \<bar>x\<bar>" and hi: "\<bar>x\<bar> < pow2 (e + 1)"
    by (simp_all add: e_def)
  from lo x(2) have "pow2 e < pow2 53"
    by simp
  then have e52: "e \<le> 52"
    using pow2_less_imp [of e 53] by simp
  from x(1) hi have "pow2 0 < pow2 (e + 1)"
    by (simp add: pow2_def)
  then have e0: "0 \<le> e"
    using pow2_less_imp [of 0 "e + 1"] by simp
  define q where "q = pow2 (e - 52)"
  have qq: "q * pow2 (52 - e) = 1"
    using pow2_add [of "e - 52" "52 - e"] by (simp add: q_def pow2_def)
  have q: "0 < q"
    by (simp add: q_def pow2_pos)
  have inv: "x / q = x * pow2 (52 - e)" for x
    using qq q by (simp add: field_simps)
  have "x / q = of_int k * pow2 (52 - e) + (x - of_int k) * pow2 (52 - e)"
    by (simp add: inv algebra_simps)
  also have "of_int k * pow2 (52 - e) = of_int (k * 2 ^ nat (52 - e))"
    using e52 by (simp add: pow2_nat)
  finally have "round_even (x / q)
      = round_even (of_int (k * 2 ^ nat (52 - e)) + (x - of_int k) * pow2 (52 - e))"
    by simp
  also have "\<dots> = k * 2 ^ nat (52 - e)"
  proof (rule round_even_near)
    have "\<bar>(x - of_int k) * pow2 (52 - e)\<bar> = \<bar>x - of_int k\<bar> * pow2 (52 - e)"
      using pow2_pos [of "52 - e"] by (simp add: abs_mult)
    with near show "\<bar>(x - of_int k) * pow2 (52 - e)\<bar> < 1 / 2"
      by (simp add: e_def)
  qed
  finally have r: "round_even (x / q) = k * 2 ^ nat (52 - e)" .
  have "of_int (k * 2 ^ nat (52 - e)) * q = of_int k * (q * pow2 (52 - e))"
    using e52 by (simp add: pow2_nat)
  then have "of_int (round_even (x / q)) * q = of_int k"
    by (simp add: r qq)
  moreover have "x \<noteq> 0"
    using x by auto
  moreover have "max e (- 1022) = e"
    using e0 by simp
  ultimately show ?thesis
    by (simp add: fl_def e_def [symmetric] q_def [symmetric] Let_def)
qed

text \<open>Whole numbers below \<open>2 ^ 53\<close> in magnitude are doubles.\<close>

lemma fl_of_int:
  assumes "\<bar>n\<bar> < 2 ^ 53"
  shows "fl (of_int n) = of_int n"
proof (cases "n = 0")
  case True
  then show ?thesis
    by (simp add: fl_def)
next
  case False
  then have "1 \<le> \<bar>n\<bar>"
    by simp
  then have "1 \<le> \<bar>of_int n :: rat\<bar>"
    by (simp flip: of_int_abs)
  moreover have "\<bar>of_int n :: rat\<bar> < pow2 53"
    using assms of_int_less_iff [of "\<bar>n\<bar>" "2 ^ 53", where ?'a = rat] by (simp add: pow2_def)
  ultimately show ?thesis
    by (intro fl_near) simp_all
qed

lemma round_number_of_int:
  assumes "fl x = of_int n" and "\<bar>n\<bar> < 2 ^ 53"
  shows "round_number x = Num (of_int n)"
proof -
  have "ilog2 \<bar>of_int n :: rat\<bar> < 1024"
  proof (cases "n = 0")
    case True
    then show ?thesis
      by (simp add: ilog2_def bitlen_def)
  next
    case False
    then have pos: "0 < \<bar>of_int n :: rat\<bar>"
      by simp
    have "\<bar>of_int n :: rat\<bar> < pow2 53"
      using assms(2) of_int_less_iff [of "\<bar>n\<bar>" "2 ^ 53", where ?'a = rat] by (simp add: pow2_def)
    with ilog2_bounds(1) [OF pos] have "pow2 (ilog2 \<bar>of_int n :: rat\<bar>) < pow2 53"
      by simp
    then show ?thesis
      using pow2_less_imp [of "ilog2 \<bar>of_int n :: rat\<bar>" 53] by simp
  qed
  then show ?thesis
    by (simp add: round_number_def assms(1))
qed

text \<open>
  The product of a whole multiple of 10000 with the double 0.0001 rounds to the exact
  quotient: the literal is above one ten-thousandth by the factor 1 + 3536 / 2 ^ 66,
  less than half a unit in the last place.
\<close>

lemma fl_ten_thousandth:
  assumes "\<bar>10000 * k\<bar> < 2 ^ 53"
  shows "fl (of_int (10000 * k) * double_0_0001) = of_int k"
proof (cases "k = 0")
  case True
  then show ?thesis
    by (simp add: fl_def)
next
  case False
  define x :: rat where "x = of_int (10000 * k) * double_0_0001"
  have xk: "x = of_int k * (1 + 3536 / 2 ^ 66)"
    by (simp add: x_def double_0_0001_value)
  have k1: "1 \<le> \<bar>of_int k :: rat\<bar>"
    using False by (simp flip: of_int_abs)
  have kb: "\<bar>of_int k :: rat\<bar> < 2 ^ 53 / 10000"
    using assms of_int_less_iff [of "\<bar>10000 * k\<bar>" "2 ^ 53", where ?'a = rat]
    by (simp add: abs_mult)
  have ax: "\<bar>x\<bar> = \<bar>of_int k\<bar> * (1 + 3536 / 2 ^ 66)"
    by (simp add: xk abs_mult)
  have x1: "1 \<le> \<bar>x\<bar>"
    using k1 by (simp add: ax)
  have x53: "\<bar>x\<bar> < pow2 53"
    using kb by (simp add: ax pow2_def)
  define e where "e = ilog2 \<bar>x\<bar>"
  from x1 have pos: "0 < \<bar>x\<bar>"
    by simp
  from ilog2_bounds [OF pos] have lo: "pow2 e \<le> \<bar>x\<bar>" and hi: "\<bar>x\<bar> < pow2 (e + 1)"
    by (simp_all add: e_def)
  have "\<bar>of_int k :: rat\<bar> \<le> \<bar>x\<bar>"
    by (simp add: ax)
  with hi have "\<bar>of_int k :: rat\<bar> < pow2 (e + 1)"
    by simp
  then have "\<bar>of_int k :: rat\<bar> * pow2 (52 - e) < pow2 (e + 1) * pow2 (52 - e)"
    using pow2_pos [of "52 - e"] by simp
  also have "\<dots> = 2 ^ 53"
    using pow2_add [of "e + 1" "52 - e"] by (simp add: pow2_def)
  finally have kp: "\<bar>of_int k :: rat\<bar> * pow2 (52 - e) < 2 ^ 53" .
  have "\<bar>x - of_int k\<bar> = \<bar>of_int k\<bar> * (3536 / 2 ^ 66)"
    by (simp add: xk algebra_simps abs_mult)
  then have "\<bar>x - of_int k\<bar> * pow2 (52 - e) = (\<bar>of_int k\<bar> * pow2 (52 - e)) * (3536 / 2 ^ 66)"
    by simp
  also have "\<dots> < 2 ^ 53 * (3536 / 2 ^ 66)"
    using kp by simp
  also have "\<dots> < 1 / 2"
    by simp
  finally have "\<bar>x - of_int k\<bar> * pow2 (52 - ilog2 \<bar>x\<bar>) < 1 / 2"
    by (simp add: e_def)
  with x1 x53 have "fl x = of_int k"
    by (rule fl_near)
  then show ?thesis
    by (simp add: x_def)
qed

subsection \<open>The cutoff set by setWidth\<close>

lemma cutoff_18000_5000:
  "Math_floor (times_number (times_number (Num (fl 18000)) (Num 5000)) (Num double_0_0001))
     = Num 9000"
  by code_simp

lemma cutoff_18000_2000:
  "Math_floor (times_number (times_number (Num (fl 18000)) (Num 2000)) (Num double_0_0001))
     = Num 3600"
  by code_simp

lemma product_18000_1:
  "times_number (times_number (Num (fl 18000)) (Num 1)) (Num double_0_0001)
     = Num (8106479329266893 / 4503599627370496)"
  by code_simp

text \<open>
  The floor is taken of the rounded product.  The double printed as 1.6666666666666665
  is 3752999689475413 / 2251799813685248, just below 5/3: on a contest of 18000
  seconds the exact product with it is below 3, the product of doubles is 3, and the
  cutoff stored is 3.  For the width 9996 on 4000000000001 seconds the first product
  is beyond the 53 bits of a double.
\<close>

lemma setWidth_rounded_product:
  "timestamp_o (setWidth (Num (3752999689475413 / 2251799813685248))
       \<lparr>startTime = 0, endTime = 18000, penalty_c = 1200, problems = [], organization_c = None\<rparr>
       new_RankOptions) = Num 3"
  "\<lfloor>18000 * (3752999689475413 / 2251799813685248) * (1 / 10000) :: rat\<rfloor> = 2"
  "timestamp_o (setWidth (Num 9996)
       \<lparr>startTime = 0, endTime = 4000000000001, penalty_c = 1200, problems = [],
        organization_c = None\<rparr>
       new_RankOptions) = Num 3998400000001"
  "\<lfloor>4000000000001 * 9996 * (1 / 10000) :: rat\<rfloor> = 3998400000000"
proof -
  have "Math_floor (times_number (times_number (Num (fl 18000))
      (Num (3752999689475413 / 2251799813685248))) (Num double_0_0001)) = Num 3"
    by code_simp
  then show "timestamp_o (setWidth (Num (3752999689475413 / 2251799813685248))
       \<lparr>startTime = 0, endTime = 18000, penalty_c = 1200, problems = [], organization_c = None\<rparr>
       new_RankOptions) = Num 3"
    by (simp add: setWidth_def)
  have "Math_floor (times_number (times_number (Num (fl 4000000000001)) (Num 9996))
      (Num double_0_0001)) = Num 3998400000001"
    by code_simp
  then show "timestamp_o (setWidth (Num 9996)
       \<lparr>startTime = 0, endTime = 4000000000001, penalty_c = 1200, problems = [],
        organization_c = None\<rparr>
       new_RankOptions) = Num 3998400000001"
    by (simp add: setWidth_def)
  show "\<lfloor>18000 * (3752999689475413 / 2251799813685248) * (1 / 10000) :: rat\<rfloor> = 2"
    by (simp add: floor_unique)
  show "\<lfloor>4000000000001 * 9996 * (1 / 10000) :: rat\<rfloor> = 3998400000000"
    by (simp add: floor_unique)
qed

text \<open>
  Hence the permyriad reading of the width is exact where it gives a whole cutoff: if
  duration * width is the multiple \<open>10000 * k\<close>, with the duration and the product
  below \<open>2 ^ 53\<close> in magnitude, the cutoff stored is \<open>k\<close>.
\<close>

lemma setWidth_whole_product:
  assumes "\<bar>endTime c - startTime c\<bar> < 2 ^ 53"
    and "of_int (endTime c - startTime c) * x = of_int (10000 * k)"
    and "\<bar>10000 * k\<bar> < 2 ^ 53"
  shows "timestamp_o (setWidth (Num x) c opts) = Num (of_int k)"
proof -
  have k: "\<bar>k\<bar> < 2 ^ 53"
    using assms(3) by (simp add: abs_mult)
  define d where "d = endTime c - startTime c"
  have "fl (of_int d) * x = of_int (10000 * k)"
    using assms(1,2) by (simp only: d_def fl_of_int)
  then have 1: "times_number (Num (fl (of_int d))) (Num x) = Num (of_int (10000 * k))"
    using round_number_of_int [OF fl_of_int [OF assms(3)] assms(3)]
    by (simp del: of_int_mult)
  have 2: "times_number (Num (of_int (10000 * k))) (Num double_0_0001) = Num (of_int k)"
    using round_number_of_int [OF fl_ten_thousandth [OF assms(3)] k]
    by (simp del: of_int_mult)
  show ?thesis
    by (simp add: setWidth_def d_def [symmetric] 1 2 del: times_number.simps of_int_mult of_int_diff)
qed

text \<open>
  C5, as stated: the cutoff is the product duration * width * 0.0001 itself.  This
  fails: for width 1 on a contest of 18000 seconds the cutoff stored is 1, which is
  neither the product as JavaScript computes it (the double
  8106479329266893 / 4503599627370496, printed as 1.8) nor the exact product 9/5.
\<close>

theorem C5_setWidth_product_counterexample:
  "timestamp_o (setWidth (Num 1)
       \<lparr>startTime = 0, endTime = 18000, penalty_c = 1200, problems = [], organization_c = None\<rparr>
       new_RankOptions)
     \<noteq> times_number (times_number (Num (fl (of_int (18000 - 0)))) (Num 1)) (Num double_0_0001)
   \<and> timestamp_o (setWidth (Num 1)
       \<lparr>startTime = 0, endTime = 18000, penalty_c = 1200, problems = [], organization_c = None\<rparr>
       new_RankOptions)
     \<noteq> Num (of_int (18000 - 0) * 1 * (1 / 10000))
   \<and> timestamp_o (setWidth (Num 1)
       \<lparr>startTime = 0, endTime = 18000, penalty_c = 1200, problems = [], organization_c = None\<rparr>
       new_RankOptions)
     = Num 1"
proof -
  have "\<lfloor>8106479329266893 / 4503599627370496 :: rat\<rfloor> = 1"
    by (simp add: floor_unique)
  then show ?thesis
    by (simp add: setWidth_def product_18000_1 del: times_number.simps)
qed

text \<open>
  C5, amended: setWidth stores the width, sets the cutoff to the floor
  (\<^verbatim>\<open>Math.floor\<close>) of the product (duration * width) * 0.0001 as JavaScript computes
  it, each multiplication rounded to a double, and enables the filter; when that
  product is a finite number \<open>p\<close> the cutoff is the whole number \<open>\<lfloor>p\<rfloor>\<close>; width 5000 on a
  contest of 18000 seconds gives the cutoff 9000.
\<close>

theorem C5_setWidth_floor:
  "timestamp_o (setWidth w c opts)
     = Math_floor
         (times_number (times_number (Num (fl (of_int (endTime c - startTime c)))) w)
            (Num double_0_0001))
   \<and> (\<forall>p. times_number (times_number (Num (fl (of_int (endTime c - startTime c)))) w)
            (Num double_0_0001) = Num p
          \<longrightarrow> timestamp_o (setWidth w c opts) = Num (of_int \<lfloor>p\<rfloor>))
   \<and> enableFilterSubmissionsByTimestamp (setWidth w c opts)
   \<and> width (setWidth w c opts) = w
   \<and> (endTime c - startTime c = 18000 \<longrightarrow>
        timestamp_o (setWidth (Num 5000) c opts) = Num 9000)"
  using cutoff_18000_5000 by (simp add: setWidth_def)

theorem C5_setWidth_floor_witness:
  "endTime ex_contest - startTime ex_contest = 18000
   \<and> times_number (times_number (Num (fl (of_int (endTime ex_contest - startTime ex_contest))))
         (Num 5000)) (Num double_0_0001) = Num 9000
   \<and> timestamp_o (setWidth (Num 5000) ex_contest new_RankOptions) = Num 9000
   \<and> enableFilterSubmissionsByTimestamp (setWidth (Num 5000) ex_contest new_RankOptions)
   \<and> width (setWidth (Num 5000) ex_contest new_RankOptions) = Num 5000"
proof -
  have d: "endTime ex_contest - startTime ex_contest = 18000"
    by (simp add: ex_contest_def)
  have "times_number (times_number (Num (fl 18000)) (Num 5000)) (Num double_0_0001) = Num 9000"
    by code_simp
  with d have p: "times_number (times_number
      (Num (fl (of_int (endTime ex_contest - startTime ex_contest)))) (Num 5000))
      (Num double_0_0001) = Num 9000"
    by simp
  from C5_setWidth_floor [of "Num 5000" ex_contest new_RankOptions] d p show ?thesis
    by blast
qed

subsection \<open>Sorting\<close>

lemma mset_sort_insert: "mset (sort_insert cmp x xs) = add_mset x (mset xs)"
  by (induction xs) auto

lemma mset_sort_js: "mset (sort_js cmp xs) = mset xs"
  by (induction xs) (auto simp: mset_sort_insert)

lemma set_sort_insert: "set (sort_insert cmp x xs) = insert x (set xs)"
  by (induction xs) auto

lemma set_sort_js: "set (sort_js cmp xs) = set xs"
  by (induction xs) (auto simp: set_sort_insert)

lemma sorted_sort_insert:
  assumes "consistent cmp" and "sorted_wrt (\<lambda>a b. cmp a b \<le> 0) xs"
  shows "sorted_wrt (\<lambda>a b. cmp a b \<le> 0) (sort_insert cmp x xs)"
  using assms(2)
proof (induction xs)
  case Nil
  then show ?case by simp
next
  case (Cons y ys)
  show ?case
  proof (cases "cmp x y \<le> 0")
    case True
    have "\<forall>z\<in>set ys. cmp x z \<le> 0"
      using True Cons.prems assms(1) unfolding consistent_def by (metis sorted_wrt.simps(2))
    with True Cons.prems show ?thesis by simp
  next
    case False
    then have "cmp y x \<le> 0"
      using assms(1) unfolding consistent_def by blast
    with False Cons show ?thesis
      by (auto simp: set_sort_insert)
  qed
qed

lemma sorted_sort_js:
  "consistent cmp \<Longrightarrow> sorted_wrt (\<lambda>a b. cmp a b \<le> 0) (sort_js cmp xs)"
  by (induction xs) (auto simp: sorted_sort_insert)

text \<open>Sorting a sorted sequence changes nothing, whatever the comparator.\<close>

lemma sort_js_sorted_id:
  "sorted_wrt (\<lambda>a b. cmp a b \<le> 0) xs \<Longrightarrow> sort_js cmp xs = xs"
proof (induction xs)
  case Nil
  then show ?case by simp
next
  case (Cons x xs)
  then have "sort_js cmp xs = xs" by simp
  moreover have "sort_insert cmp x xs = x # xs"
    using Cons.prems by (cases xs) auto
  ultimately show ?case by simp
qed

lemma consistent_Submission_compare: "consistent Submission_compare"
  unfolding consistent_def Submission_compare_def
  by (auto split: if_splits)

lemma Submission_compare_timestamp:
  "Submission_compare a b \<le> 0 \<Longrightarrow> timestamp a \<le> timestamp b"
  by (auto simp: Submission_compare_def split: if_splits)

lemma sorted_timestamp:
  "sorted_wrt (\<lambda>a b. Submission_compare a b \<le> 0) xs \<Longrightarrow> sorted (map timestamp xs)"
  unfolding sorted_map
  by (erule sorted_wrt_mono_rel [rotated]) (simp add: Submission_compare_timestamp)

subsection \<open>Award construction\<close>

lemma createAward_walk:
  "createAward v = award_walk v [(''gold'', GOLD), (''silver'', SILVER), (''bronze'', BRONZE)] 1"
  by (simp add: createAward_def work_def split: option.splits)

lemma createAward_tiers:
  "map medalType (createAward v) =
     filter (\<lambda>t. t = GOLD \<and> v ''gold'' \<noteq> None \<or> t = SILVER \<and> v ''silver'' \<noteq> None
                \<or> t = BRONZE \<and> v ''bronze'' \<noteq> None \<or> t = HONORABLE)
       [GOLD, SILVER, BRONZE, HONORABLE]"
  by (auto simp add: createAward_def work_def split: option.splits prod.splits)

lemma createAward_ends:
  "minRank (hd (createAward v)) = 1 \<and> maxRank (last (createAward v)) = sentinel"
  by (simp add: createAward_def work_def split: option.splits prod.splits)

lemma createAward_contiguous:
  "Suc i < length (createAward v) \<Longrightarrow>
     minRank (createAward v ! Suc i) = maxRank (createAward v ! i) + 1"
  by (auto simp add: createAward_def work_def nth_Cons' less_Suc_eq
      split: option.splits prod.splits)

lemma createAward_size:
  "a \<in> set (createAward v) \<Longrightarrow>
     (medalType a = GOLD \<longrightarrow> v ''gold'' = Some (maxRank a - minRank a + 1))
     \<and> (medalType a = SILVER \<longrightarrow> v ''silver'' = Some (maxRank a - minRank a + 1))
     \<and> (medalType a = BRONZE \<longrightarrow> v ''bronze'' = Some (maxRank a - minRank a + 1))"
  by (auto simp add: createAward_def work_def split: option.splits prod.splits)

lemma createAward_example:
  "createAward [''gold'' \<mapsto> 1, ''silver'' \<mapsto> 2] =
     [\<lparr>medalType = GOLD, minRank = 1, maxRank = 1\<rparr>,
      \<lparr>medalType = SILVER, minRank = 2, maxRank = 3\<rparr>,
      \<lparr>medalType = HONORABLE, minRank = 4, maxRank = sentinel\<rparr>]"
  by (simp add: createAward_def work_def)

text \<open>
  C6: for every medal configuration \<open>v\<close> of a group, the award list built by
  createContest is the walk over gold, silver, bronze from rank 1 that the
  specification describes: the tiers are those of the configuration, in that order,
  followed by the honorable tier; the first block starts at rank 1, every block starts
  right after the one before it and has the size configured for its tier, and the
  honorable tier ends at the sentinel.  The configuration gold 1, silver 2 gives gold
  [1,1], silver [2,3] and honorable [4, sentinel], with no bronze tier.  The awards of a
  contest hold this list for every group of its medal configuration.
\<close>

theorem C6_award_construction:
  "createAward v = award_walk v [(''gold'', GOLD), (''silver'', SILVER), (''bronze'', BRONZE)] 1
   \<and> map medalType (createAward v) =
       filter (\<lambda>t. t = GOLD \<and> v ''gold'' \<noteq> None \<or> t = SILVER \<and> v ''silver'' \<noteq> None
                  \<or> t = BRONZE \<and> v ''bronze'' \<noteq> None \<or> t = HONORABLE)
         [GOLD, SILVER, BRONZE, HONORABLE]
   \<and> minRank (hd (createAward v)) = 1
   \<and> maxRank (last (createAward v)) = sentinel
   \<and> (\<forall>i. Suc i < length (createAward v) \<longrightarrow>
         minRank (createAward v ! Suc i) = maxRank (createAward v ! i) + 1)
   \<and> (\<forall>a\<in>set (createAward v).
         (medalType a = GOLD \<longrightarrow> v ''gold'' = Some (maxRank a - minRank a + 1))
         \<and> (medalType a = SILVER \<longrightarrow> v ''silver'' = Some (maxRank a - minRank a + 1))
         \<and> (medalType a = BRONZE \<longrightarrow> v ''bronze'' = Some (maxRank a - minRank a + 1)))
   \<and> createAward [''gold'' \<mapsto> 1, ''silver'' \<mapsto> 2] =
       [\<lparr>medalType = GOLD, minRank = 1, maxRank = 1\<rparr>,
        \<lparr>medalType = SILVER, minRank = 2, maxRank = 3\<rparr>,
        \<lparr>medalType = HONORABLE, minRank = 4, maxRank = sentinel\<rparr>]
   \<and> (\<forall>m g. m g = Some v \<longrightarrow>
         (\<exists>aw. createContest_awards (Some m) = Some aw \<and> aw g = Some (createAward v)))"
  using createAward_walk [of v] createAward_tiers [of v] createAward_ends [of v]
    createAward_contiguous [of _ v] createAward_size [of _ v] createAward_example
  by (simp add: createContest_awards_def)

theorem C6_award_construction_witness:
  "Suc 0 < length (createAward [''gold'' \<mapsto> 1, ''silver'' \<mapsto> 2])
   \<and> minRank (createAward [''gold'' \<mapsto> 1, ''silver'' \<mapsto> 2] ! Suc 0)
       = maxRank (createAward [''gold'' \<mapsto> 1, ''silver'' \<mapsto> 2] ! 0) + 1
   \<and> map medalType (createAward [''gold'' \<mapsto> 1, ''silver'' \<mapsto> 2]) = [GOLD, SILVER, HONORABLE]
   \<and> (\<exists>aw. createContest_awards (Some [''all'' \<mapsto> [''gold'' \<mapsto> 1, ''silver'' \<mapsto> 2]]) = Some aw
         \<and> aw ''all'' = Some (createAward [''gold'' \<mapsto> 1, ''silver'' \<mapsto> 2]))"
proof -
  let ?v = "[''gold'' \<mapsto> 1, ''silver'' \<mapsto> (2::int)]"
  note c6 = C6_award_construction [of ?v]
  have len: "Suc 0 < length (createAward ?v)"
    by (simp add: createAward_example)
  have m: "[''all'' \<mapsto> ?v] ''all'' = Some ?v"
    by simp
  from c6 len have "minRank (createAward ?v ! Suc 0) = maxRank (createAward ?v ! 0) + 1"
    by blast
  moreover from c6 have "map medalType (createAward ?v) = [GOLD, SILVER, HONORABLE]"
    by simp
  moreover from c6 m have "\<exists>aw. createContest_awards (Some [''all'' \<mapsto> ?v]) = Some aw
         \<and> aw ''all'' = Some (createAward ?v)"
    by blast
  ultimately show ?thesis using len by blast
qed

subsection \<open>The visible submissions\<close>

lemma getSubmissions_filter:
  assumes "Rank_inv r" and "enableFilterSubmissionsByTimestamp (options r)"
  shows "getSubmissions r
      = filter (\<lambda>s. less_eq_number (Num (of_int (timestamp s))) (timestamp_o (options r)))
          (submissions r)"
proof -
  have "sorted_wrt (\<lambda>a b. Submission_compare a b \<le> 0)
      (filter (\<lambda>s. less_eq_number (Num (of_int (timestamp s))) (timestamp_o (options r)))
         (submissions r))"
    using assms(1) by (simp add: Rank_inv_def sorted_wrt_filter)
  then show ?thesis
    using assms(2) by (simp add: getSubmissions_def sort_js_sorted_id)
qed

text \<open>
  C2: with the filter enabled at the cutoff \<open>timestamp_o\<close>, getSubmissions returns
  exactly the owned submissions whose timestamp is at most the cutoff (as a multiset:
  each as often as it is owned), in the canonical order, hence in ascending timestamp
  order; for a Rank in its invariant this is the subsequence of the owned submissions
  with such a timestamp.  The cutoff is a number and the comparison is \<^verbatim>\<open><=\<close> on
  numbers; at a cutoff that is the whole number \<open>C\<close> it is \<open>timestamp s \<le> C\<close>.  With the
  filter disabled, and after \<^verbatim>\<open>disableFilterSubmissionByTimestamp\<close>, it returns the
  owned sequence itself.
\<close>

theorem C2_getSubmissions:
  "(enableFilterSubmissionsByTimestamp (options r) \<longrightarrow>
      mset (getSubmissions r)
        = filter_mset (\<lambda>s. less_eq_number (Num (of_int (timestamp s))) (timestamp_o (options r)))
            (mset (submissions r))
      \<and> sorted_wrt (\<lambda>a b. Submission_compare a b \<le> 0) (getSubmissions r)
      \<and> sorted (map timestamp (getSubmissions r)))
   \<and> (enableFilterSubmissionsByTimestamp (options r) \<and> timestamp_o (options r) = Num (of_int C) \<longrightarrow>
        mset (getSubmissions r) = filter_mset (\<lambda>s. timestamp s \<le> C) (mset (submissions r)))
   \<and> (Rank_inv r \<and> enableFilterSubmissionsByTimestamp (options r) \<longrightarrow>
        getSubmissions r
          = filter (\<lambda>s. less_eq_number (Num (of_int (timestamp s))) (timestamp_o (options r)))
              (submissions r))
   \<and> (Rank_inv r \<and> enableFilterSubmissionsByTimestamp (options r)
        \<and> timestamp_o (options r) = Num (of_int C) \<longrightarrow>
        getSubmissions r = filter (\<lambda>s. timestamp s \<le> C) (submissions r))
   \<and> (\<not> enableFilterSubmissionsByTimestamp (options r) \<longrightarrow>
        getSubmissions r = submissions r)
   \<and> getSubmissions (r\<lparr>options := disableFilterSubmissionByTimestamp (options r)\<rparr>)
       = submissions r"
proof -
  have general: "enableFilterSubmissionsByTimestamp (options r) \<longrightarrow>
      mset (getSubmissions r)
        = filter_mset (\<lambda>s. less_eq_number (Num (of_int (timestamp s))) (timestamp_o (options r)))
            (mset (submissions r))
      \<and> sorted_wrt (\<lambda>a b. Submission_compare a b \<le> 0) (getSubmissions r)
      \<and> sorted (map timestamp (getSubmissions r))"
    by (simp add: getSubmissions_def mset_sort_js sorted_sort_js sorted_timestamp
        consistent_Submission_compare)
  have whole: "enableFilterSubmissionsByTimestamp (options r) \<and> timestamp_o (options r) = Num (of_int C) \<longrightarrow>
        mset (getSubmissions r) = filter_mset (\<lambda>s. timestamp s \<le> C) (mset (submissions r))"
    using general by simp
  have inv: "Rank_inv r \<and> enableFilterSubmissionsByTimestamp (options r) \<longrightarrow>
        getSubmissions r
          = filter (\<lambda>s. less_eq_number (Num (of_int (timestamp s))) (timestamp_o (options r)))
              (submissions r)"
    using getSubmissions_filter [of r] by simp
  have inv_whole: "Rank_inv r \<and> enableFilterSubmissionsByTimestamp (options r)
        \<and> timestamp_o (options r) = Num (of_int C) \<longrightarrow>
        getSubmissions r = filter (\<lambda>s. timestamp s \<le> C) (submissions r)"
    using inv by simp
  have off: "(\<not> enableFilterSubmissionsByTimestamp (options r) \<longrightarrow>
        getSubmissions r = submissions r)
     \<and> getSubmissions (r\<lparr>options := disableFilterSubmissionByTimestamp (options r)\<rparr>)
       = submissions r"
    by (simp add: getSubmissions_def disableFilterSubmissionByTimestamp_def)
  from general whole inv inv_whole off show ?thesis
    by blast
qed

theorem C2_getSubmissions_witness:
  "enableFilterSubmissionsByTimestamp (options (ex_rank\<lparr>options := setWidth (Num 2000) ex_contest new_RankOptions\<rparr>))
   \<and> timestamp_o (options (ex_rank\<lparr>options := setWidth (Num 2000) ex_contest new_RankOptions\<rparr>))
       = Num (of_int 3600)
   \<and> mset (getSubmissions (ex_rank\<lparr>options := setWidth (Num 2000) ex_contest new_RankOptions\<rparr>))
       = {#ex_submission ''1'' ''t1'' ''A'' 1000 False, ex_submission ''2'' ''t1'' ''A'' 3000 True,
           ex_submission ''3'' ''t3'' ''A'' 3000 True#}
   \<and> \<not> enableFilterSubmissionsByTimestamp (options ex_rank)
   \<and> getSubmissions ex_rank = ex_submissions"
proof -
  let ?r = "ex_rank\<lparr>options := setWidth (Num 2000) ex_contest new_RankOptions\<rparr>"
  have en: "enableFilterSubmissionsByTimestamp (options ?r)"
    by (simp add: setWidth_def)
  have cut: "timestamp_o (options ?r) = Num (of_int 3600)"
    using cutoff_18000_2000 by (simp add: setWidth_def ex_contest_def)
  have dis: "\<not> enableFilterSubmissionsByTimestamp (options ex_rank)"
    by (simp add: ex_rank_def new_RankOptions_def)
  from C2_getSubmissions [of ?r 3600] en cut
  have "mset (getSubmissions ?r)
      = filter_mset (\<lambda>s. timestamp s \<le> 3600) (mset (submissions ?r))"
    by blast
  then have "mset (getSubmissions ?r)
      = {#ex_submission ''1'' ''t1'' ''A'' 1000 False, ex_submission ''2'' ''t1'' ''A'' 3000 True,
          ex_submission ''3'' ''t3'' ''A'' 3000 True#}"
    by (simp add: ex_rank_def ex_submissions_def ex_submission_def)
  moreover from C2_getSubmissions [of ex_rank 0] dis have "getSubmissions ex_rank = ex_submissions"
    by (simp add: ex_rank_def)
  ultimately show ?thesis using en cut dis by blast
qed

text \<open>
  C10: after \<^verbatim>\<open>setWidth(0, contest)\<close> the filter is enabled with the cutoff 0:
  getSubmissions returns the owned submissions with a timestamp of at most 0, in the
  canonical order, and not the full sequence whenever some owned submission has a
  positive timestamp.
\<close>

theorem C10_setWidth_zero:
  "enableFilterSubmissionsByTimestamp (setWidth (Num 0) c (options r))
   \<and> timestamp_o (setWidth (Num 0) c (options r)) = Num 0
   \<and> getSubmissions (r\<lparr>options := setWidth (Num 0) c (options r)\<rparr>)
       = sort_js Submission_compare (filter (\<lambda>s. timestamp s \<le> 0) (submissions r))
   \<and> set (getSubmissions (r\<lparr>options := setWidth (Num 0) c (options r)\<rparr>))
       = {s \<in> set (submissions r). timestamp s \<le> 0}
   \<and> ((\<exists>s\<in>set (submissions r). 0 < timestamp s) \<longrightarrow>
        getSubmissions (r\<lparr>options := setWidth (Num 0) c (options r)\<rparr>) \<noteq> submissions r)"
proof -
  let ?r = "r\<lparr>options := setWidth (Num 0) c (options r)\<rparr>"
  have g: "getSubmissions ?r
      = sort_js Submission_compare (filter (\<lambda>s. timestamp s \<le> 0) (submissions r))"
    by (simp add: getSubmissions_def setWidth_def round_number_zero)
  then have st: "set (getSubmissions ?r) = {s \<in> set (submissions r). timestamp s \<le> 0}"
    by (simp add: set_sort_js)
  have "getSubmissions ?r \<noteq> submissions r" if "\<exists>s\<in>set (submissions r). 0 < timestamp s"
  proof
    assume eq: "getSubmissions ?r = submissions r"
    from that obtain s where s: "s \<in> set (submissions r)" "0 < timestamp s"
      by blast
    from s(1) eq have "s \<in> set (getSubmissions ?r)"
      by simp
    then have "timestamp s \<le> 0"
      unfolding st by simp
    with s(2) show False by simp
  qed
  with g st show ?thesis
    by (simp add: setWidth_def round_number_zero)
qed

theorem C10_setWidth_zero_witness:
  "(\<exists>s\<in>set (submissions ex_rank). 0 < timestamp s)
   \<and> getSubmissions (ex_rank\<lparr>options := setWidth (Num 0) ex_contest (options ex_rank)\<rparr>) = []
   \<and> getSubmissions (ex_rank\<lparr>options := setWidth (Num 0) ex_contest (options ex_rank)\<rparr>)
       \<noteq> submissions ex_rank"
proof -
  have ex: "\<exists>s\<in>set (submissions ex_rank). 0 < timestamp s"
    by (simp add: ex_rank_def ex_submissions_def ex_submission_def)
  note c10 = C10_setWidth_zero [of ex_contest ex_rank]
  from c10 have "getSubmissions (ex_rank\<lparr>options := setWidth (Num 0) ex_contest (options ex_rank)\<rparr>)
      = sort_js Submission_compare (filter (\<lambda>s. timestamp s \<le> 0) (submissions ex_rank))"
    by blast
  then have "getSubmissions (ex_rank\<lparr>options := setWidth (Num 0) ex_contest (options ex_rank)\<rparr>) = []"
    by (simp add: ex_rank_def ex_submissions_def ex_submission_def)
  moreover from c10 ex
  have "getSubmissions (ex_rank\<lparr>options := setWidth (Num 0) ex_contest (options ex_rank)\<rparr>)
      \<noteq> submissions ex_rank"
    by blast
  ultimately show ?thesis using ex by blast
qed

subsection \<open>The replay loop: what never changes\<close>

lemma Map_get_Some: "Map_get ks key = Some i \<Longrightarrow> i < length ks \<and> ks ! i = key"
  by (induction ks arbitrary: i) (auto split: option.splits if_splits)

lemma map_list_update_same:
  "map f (xs[i := x]) = map f xs" if "f x = f (xs ! i)"
proof (cases "i < length xs")
  case True
  then show ?thesis
    using that by (simp add: map_update list_update_same_conv)
next
  case False
  then show ?thesis
    by (simp add: list_update_beyond del: map_update)
qed

lemma replay_body_team:
  assumes "replay_body s (t, ps, st) = (t', ps', st')"
  shows "id_t t' = id_t t \<and> organization t' = organization t
         \<and> problemStatistics t' = problemStatistics t"
  using assms
  by (auto simp: replay_body_def Let_def split: if_splits prod.splits)

lemma replaySubmission_ids:
  "map id_t (team_objects (replaySubmission s r)) = map id_t (team_objects r)
   \<and> map id_p (problems (contest (replaySubmission s r))) = map id_p (problems (contest r))"
  by (auto simp: replaySubmission_def Let_def map_list_update_same
      split: option.splits prod.splits dest: replay_body_team)

lemma replaySubmission_maps:
  "teamsMap (replaySubmission s r) = teamsMap r
   \<and> problemsMap (contest (replaySubmission s r)) = problemsMap (contest r)"
  by (simp add: fun_eq_iff teamsMap_def problemsMap_def replaySubmission_ids)

lemma replay_maps:
  "teamsMap (replay ss r) = teamsMap r
   \<and> problemsMap (contest (replay ss r)) = problemsMap (contest r)"
  unfolding replay_def
  by (induction ss arbitrary: r) (simp_all add: replaySubmission_maps)

lemma replay_append: "replay (xs @ ys) r = replay ys (replay xs r)"
  by (simp add: replay_def)

lemma replay_Cons: "replay (x # xs) r = replay xs (replaySubmission x r)"
  by (simp add: replay_def)

lemma fold_update_map:
  assumes "\<And>x. g (f x) = g x"
  shows "map g (fold (\<lambda>i st. st[i := f (st ! i)]) is st) = map g st"
  by (induction "is" arbitrary: st) (simp_all add: map_list_update_same assms)

lemma resets_maps:
  "teamsMap (resetProblems (resetTeams r)) = teamsMap r
   \<and> problemsMap (contest (resetProblems (resetTeams r))) = problemsMap (contest r)"
proof -
  have "id_t (resetTeam c x) = id_t x" for c x
    by (simp add: resetTeam_def Team_reset_def)
  then have "map id_t (team_objects (resetTeams r)) = map id_t (team_objects r)"
    by (simp add: resetTeams_def fold_update_map [where g = id_t and f = "resetTeam (contest r)"])
  then show ?thesis
    by (simp add: fun_eq_iff teamsMap_def problemsMap_def resetProblems_def resetTeams_def
        comp_def)
qed

lemma resets_getSubmissions:
  "getSubmissions (resetProblems (resetTeams r)) = getSubmissions r"
  by (simp add: getSubmissions_def resetProblems_def resetTeams_def)

lemmas ex_defs =
  ex_rank_def ex_contest_def ex_submissions_def ex_submission_def ex_team_def ex_problem_def

lemmas build_defs =
  resetProblems_def resetTeams_def resetTeam_def Team_reset_def ProblemStatistics_reset_def
  new_TeamProblemStatistics_def new_RankOptions_def replay_def replaySubmission_def
  replay_body_def teamsMap_def problemsMap_def

subsection \<open>Unknown references\<close>

lemma replaySubmission_unknown:
  "teamsMap r (teamId s) = None \<or> problemsMap (contest r) (problemId s) = None
     \<Longrightarrow> replaySubmission s r = r"
  by (auto simp: replaySubmission_def split: option.splits)

lemma replay_skip:
  assumes "teamsMap r (teamId s) = None \<or> problemsMap (contest r) (problemId s) = None"
  shows "replay (pre @ s # post) r = replay (pre @ post) r"
proof -
  have "replaySubmission s (replay pre r) = replay pre r"
    using assms by (intro replaySubmission_unknown) (simp add: replay_maps)
  then show ?thesis
    by (simp add: replay_append replay_Cons)
qed

text \<open>
  C7: a submission whose team id has no team, or whose problem id has no problem of the
  contest, is passed over: the iteration leaves the state \<open>\<sigma>\<close> of the build as it is
  (the model has no error value: the source continues with the next submission), the
  replay of a sequence that contains it ends in the state that the replay of the other
  submissions ends in, and so buildRank gives what it gives from the replay of the
  others.
\<close>

theorem C7_unknown_reference_skipped:
  "(teamsMap \<sigma> (teamId s) = None \<or> problemsMap (contest \<sigma>) (problemId s) = None \<longrightarrow>
      replaySubmission s \<sigma> = \<sigma>
      \<and> replay (pre @ s # post) \<sigma> = replay (pre @ post) \<sigma>)
   \<and> ((teamsMap r (teamId s) = None \<or> problemsMap (contest r) (problemId s) = None)
        \<and> getSubmissions r = pre @ s # post \<longrightarrow>
      buildRank tb r =
        buildStatistics (rankOrganizations (rankTeams (sortTeams tb (calcTeams
          (replay (pre @ post) (resetProblems (resetTeams r))))))))"
proof -
  have "buildRank tb r =
        buildStatistics (rankOrganizations (rankTeams (sortTeams tb (calcTeams
          (replay (pre @ post) (resetProblems (resetTeams r)))))))"
    if unknown: "teamsMap r (teamId s) = None \<or> problemsMap (contest r) (problemId s) = None"
      and vis: "getSubmissions r = pre @ s # post"
  proof -
    let ?r0 = "resetProblems (resetTeams r)"
    have "teamsMap ?r0 (teamId s) = None \<or> problemsMap (contest ?r0) (problemId s) = None"
      using unknown by (simp add: resets_maps)
    then have "replay (pre @ s # post) ?r0 = replay (pre @ post) ?r0"
      by (rule replay_skip)
    then show ?thesis
      by (simp add: buildRank_def Let_def resets_getSubmissions vis)
  qed
  then show ?thesis
    using replaySubmission_unknown [of \<sigma> s] replay_skip [of \<sigma> s pre post] by blast
qed

theorem C7_unknown_reference_skipped_witness:
  "teamsMap ex_rank (teamId (ex_submission ''7'' ''zz'' ''A'' 7000 True)) = None
   \<and> getSubmissions ex_rank = take 6 ex_submissions @ ex_submission ''7'' ''zz'' ''A'' 7000 True # []
   \<and> replaySubmission (ex_submission ''7'' ''zz'' ''A'' 7000 True) ex_rank = ex_rank
   \<and> buildRank (\<lambda>a b. 0) ex_rank =
        buildStatistics (rankOrganizations (rankTeams (sortTeams (\<lambda>a b. 0) (calcTeams
          (replay (take 6 ex_submissions @ []) (resetProblems (resetTeams ex_rank)))))))"
proof -
  let ?s = "ex_submission ''7'' ''zz'' ''A'' 7000 True"
  have unknown: "teamsMap ex_rank (teamId ?s) = None"
    by (simp add: teamsMap_def ex_defs)
  have vis: "getSubmissions ex_rank = take 6 ex_submissions @ ?s # []"
    by (simp add: getSubmissions_def ex_rank_def new_RankOptions_def ex_submissions_def)
  note c7 = C7_unknown_reference_skipped
    [of ex_rank ?s "take 6 ex_submissions" "[]" ex_rank "\<lambda>a b. 0"]
  from c7 unknown have "replaySubmission ?s ex_rank = ex_rank"
    by blast
  moreover from c7 unknown vis have "buildRank (\<lambda>a b. 0) ex_rank =
        buildStatistics (rankOrganizations (rankTeams (sortTeams (\<lambda>a b. 0) (calcTeams
          (replay (take 6 ex_submissions @ []) (resetProblems (resetTeams ex_rank)))))))"
    by blast
  ultimately show ?thesis using unknown vis by blast
qed

subsection \<open>Submissions after the solve\<close>

text \<open>
  C8: when the team of a submission has already solved the problem, the iteration
  appends the submission to the submissions of the team and to those of the team's
  statistics for the problem and adds one to the submitted counter of the problem;
  the state after it is the state before it with these three changes and no other.
\<close>

theorem C8_solved_frame:
  assumes "teamsMap r (teamId s) = Some i"
    and "problemsMap (contest r) (problemId s) = Some j"
    and "isSolved (problemStatistics (team_objects r ! i) ! j)"
  shows "replaySubmission s r =
     r\<lparr>team_objects := (team_objects r)
          [i := (team_objects r ! i)
             \<lparr>submissions_t := submissions_t (team_objects r ! i) @ [s],
              problemStatistics := (problemStatistics (team_objects r ! i))
                [j := (problemStatistics (team_objects r ! i) ! j)
                   \<lparr>submissions_ps :=
                      submissions_ps (problemStatistics (team_objects r ! i) ! j) @ [s]\<rparr>]\<rparr>],
       contest := (contest r)\<lparr>problems := (problems (contest r))
          [j := (problems (contest r) ! j)
             \<lparr>statistics := (statistics (problems (contest r) ! j))
                \<lparr>submittedNum := submittedNum (statistics (problems (contest r) ! j)) + 1\<rparr>\<rparr>]\<rparr>\<rparr>"
  using assms
  by (simp add: replaySubmission_def replay_body_def Let_def)

theorem C8_solved_frame_witness:
  "teamsMap ex_state (teamId (ex_submission ''6'' ''t1'' ''A'' 6000 False)) = Some 0
   \<and> problemsMap (contest ex_state) (problemId (ex_submission ''6'' ''t1'' ''A'' 6000 False)) = Some 0
   \<and> isSolved (problemStatistics (team_objects ex_state ! 0) ! 0)
   \<and> replaySubmission (ex_submission ''6'' ''t1'' ''A'' 6000 False) ex_state =
     ex_state\<lparr>team_objects := (team_objects ex_state)
          [0 := (team_objects ex_state ! 0)
             \<lparr>submissions_t := submissions_t (team_objects ex_state ! 0)
                @ [ex_submission ''6'' ''t1'' ''A'' 6000 False],
              problemStatistics := (problemStatistics (team_objects ex_state ! 0))
                [0 := (problemStatistics (team_objects ex_state ! 0) ! 0)
                   \<lparr>submissions_ps :=
                      submissions_ps (problemStatistics (team_objects ex_state ! 0) ! 0)
                        @ [ex_submission ''6'' ''t1'' ''A'' 6000 False]\<rparr>]\<rparr>],
       contest := (contest ex_state)\<lparr>problems := (problems (contest ex_state))
          [0 := (problems (contest ex_state) ! 0)
             \<lparr>statistics := (statistics (problems (contest ex_state) ! 0))
                \<lparr>submittedNum := submittedNum (statistics (problems (contest ex_state) ! 0)) + 1\<rparr>\<rparr>]\<rparr>\<rparr>"
proof -
  let ?s = "ex_submission ''6'' ''t1'' ''A'' 6000 False"
  have t: "teamsMap ex_state (teamId ?s) = Some 0"
    by (simp add: ex_state_def replay_maps resets_maps) (simp add: teamsMap_def ex_defs)
  have p: "problemsMap (contest ex_state) (problemId ?s) = Some 0"
    by (simp add: ex_state_def replay_maps resets_maps) (simp add: problemsMap_def ex_defs)
  have solved: "isSolved (problemStatistics (team_objects ex_state ! 0) ! 0)"
    by (simp add: ex_state_def ex_defs build_defs Let_def upt_rec)
  from C8_solved_frame [OF t p solved] t p solved show ?thesis
    by blast
qed

subsection \<open>The replay loop: solve bookkeeping\<close>

text \<open>What one iteration does to the solve bookkeeping of its statistics objects.\<close>

lemma replay_body_solve:
  assumes "replay_body s (t, ps, st) = (t', ps', st')"
  shows "if isSolved ps \<or> isIgnore s \<or> isNotCalculatedPenaltyStatus s \<or> \<not> isAccepted s
         then isSolved ps' = isSolved ps \<and> solvedTimestamp ps' = solvedTimestamp ps
              \<and> isFirstSolved ps' = isFirstSolved ps
              \<and> firstSolveSubmissions st' = firstSolveSubmissions st
         else isSolved ps' \<and> solvedTimestamp ps' = timestamp s
              \<and> (if firstSolveSubmissions st = []
                     \<or> timestamp (last (firstSolveSubmissions st)) = timestamp s
                  then isFirstSolved ps' \<and> firstSolveSubmissions st' = firstSolveSubmissions st @ [s]
                  else isFirstSolved ps' = isFirstSolved ps
                       \<and> firstSolveSubmissions st' = firstSolveSubmissions st)"
  using assms
  by (auto simp: replay_body_def Let_def last_conv_nth split: if_splits prod.splits)

lemma replay_body_first:
  assumes "replay_body s (t, ps, st) = (t', ps', st')"
  shows "firstSolveSubmissions st' = firstSolveSubmissions st
         \<or> (firstSolveSubmissions st' = firstSolveSubmissions st @ [s]
            \<and> (firstSolveSubmissions st = []
                \<or> timestamp (last (firstSolveSubmissions st)) = timestamp s))"
  using replay_body_solve [OF assms] by (simp split: if_splits)

lemma replaySubmission_known:
  assumes "teamsMap r (teamId s) = Some i" and "problemsMap (contest r) (problemId s) = Some j"
    and "replay_body s (team_objects r ! i, team_stats r i j, statistics (problems (contest r) ! j))
           = (t', ps', st')"
  shows "team_objects (replaySubmission s r) = (team_objects r)
           [i := t'\<lparr>problemStatistics := (problemStatistics (team_objects r ! i))[j := ps']\<rparr>]"
    and "problems (contest (replaySubmission s r)) = (problems (contest r))
           [j := (problems (contest r) ! j)\<lparr>statistics := st'\<rparr>]"
    and "i < length (team_objects r)" and "j < length (problems (contest r))"
  using assms replay_body_team [OF assms(3)]
  by (auto simp: replaySubmission_def team_stats_def teamsMap_def problemsMap_def Let_def
      dest: Map_get_Some)

lemma replaySubmission_lengths:
  "length (team_objects (replaySubmission s r)) = length (team_objects r)
   \<and> length (problems (contest (replaySubmission s r))) = length (problems (contest r))"
  using replaySubmission_ids [of s r] by (metis length_map)

lemma replaySubmission_cases:
  obtains (skip) "replaySubmission s r = r"
      "teamsMap r (teamId s) = None \<or> problemsMap (contest r) (problemId s) = None"
  | (known) i j t' ps' st' where
      "teamsMap r (teamId s) = Some i" "problemsMap (contest r) (problemId s) = Some j"
      "replay_body s (team_objects r ! i, team_stats r i j, statistics (problems (contest r) ! j))
           = (t', ps', st')"
proof (cases "teamsMap r (teamId s) = None \<or> problemsMap (contest r) (problemId s) = None")
  case True
  then show ?thesis
    using skip replaySubmission_unknown by blast
next
  case False
  then obtain i j where "teamsMap r (teamId s) = Some i"
    "problemsMap (contest r) (problemId s) = Some j"
    by auto
  then show ?thesis
    using known by (metis prod_cases3)
qed

lemma replaySubmission_shaped:
  assumes "shaped r"
  shows "shaped (replaySubmission s r)"
proof (cases rule: replaySubmission_cases [where s = s and r = r])
  case skip
  with assms show ?thesis by simp
next
  case (known i j t' ps' st')
  note k = replaySubmission_known [OF known]
  from replay_body_team [OF known(3)]
  have "problemStatistics t' = problemStatistics (team_objects r ! i)"
    by simp
  with assms k(3) show ?thesis
    unfolding shaped_def k(1,2) by (auto simp add: nth_list_update)
qed

lemma step_team_stats:
  assumes "teamsMap r (teamId s) = Some i" and "problemsMap (contest r) (problemId s) = Some j"
    and "replay_body s (team_objects r ! i, team_stats r i j, statistics (problems (contest r) ! j))
           = (t', ps', st')"
    and "shaped r" and "i' < length (team_objects r)" and "j' < length (problems (contest r))"
  shows "team_stats (replaySubmission s r) i' j'
           = (if i' = i \<and> j' = j then ps' else team_stats r i' j')"
proof -
  note k = replaySubmission_known [OF assms(1-3)]
  from assms(4) k(3) have "length (problemStatistics (team_objects r ! i)) = length (problems (contest r))"
    by (simp add: shaped_def)
  with assms(5,6) k(3,4) show ?thesis
    unfolding team_stats_def k(1) by (auto simp: nth_list_update)
qed

lemma step_first_solves:
  assumes "teamsMap r (teamId s) = Some i" and "problemsMap (contest r) (problemId s) = Some j"
    and "replay_body s (team_objects r ! i, team_stats r i j, statistics (problems (contest r) ! j))
           = (t', ps', st')"
    and "j' < length (problems (contest r))"
  shows "first_solves (replaySubmission s r) j'
           = (if j' = j then firstSolveSubmissions st' else first_solves r j')"
proof -
  note k = replaySubmission_known [OF assms(1-3)]
  from assms(4) k(4) show ?thesis
    unfolding first_solves_def k(2) by (auto simp: nth_list_update)
qed

lemma step_same_timestamp:
  assumes "\<forall>j<length (problems (contest r)). same_timestamp (first_solves r j)"
    and "j < length (problems (contest r))"
  shows "same_timestamp (first_solves (replaySubmission s r) j)"
proof (cases rule: replaySubmission_cases [where s = s and r = r])
  case skip
  with assms show ?thesis by simp
next
  case (known i' j' t' ps' st')
  note fs = step_first_solves [OF known assms(2)]
  note k = replaySubmission_known [OF known]
  show ?thesis
  proof (cases "j = j'")
    case False
    with fs assms show ?thesis by simp
  next
    case True
    have old: "same_timestamp (first_solves r j')"
      using assms(1) k(4) by blast
    let ?F = "firstSolveSubmissions (statistics (problems (contest r) ! j'))"
    have F: "\<forall>x\<in>set ?F. \<forall>y\<in>set ?F. timestamp x = timestamp y"
      using old unfolding same_timestamp_def first_solves_def .
    from replay_body_first [OF known(3)]
    consider "firstSolveSubmissions st' = ?F"
      | "firstSolveSubmissions st' = ?F @ [s]" "?F = [] \<or> timestamp (last ?F) = timestamp s"
      by blast
    then have "same_timestamp (firstSolveSubmissions st')"
    proof cases
      case 1
      with F show ?thesis unfolding same_timestamp_def by metis
    next
      case 2
      have "\<forall>x\<in>set ?F. timestamp x = timestamp s"
      proof (cases "?F = []")
        case True
        then show ?thesis by simp
      next
        case False
        with 2(2) have "timestamp (last ?F) = timestamp s" by simp
        moreover from False have "last ?F \<in> set ?F" by simp
        ultimately show ?thesis using F by metis
      qed
      with 2(1) show ?thesis
        unfolding same_timestamp_def by auto
    qed
    with fs True show ?thesis by simp
  qed
qed

lemma step_bookkeeping:
  assumes "shaped r"
  obtains (same)
      "\<And>i' j'. i' < length (team_objects r) \<Longrightarrow> j' < length (problems (contest r)) \<Longrightarrow>
         isSolved (team_stats (replaySubmission s r) i' j') = isSolved (team_stats r i' j')
         \<and> solvedTimestamp (team_stats (replaySubmission s r) i' j') = solvedTimestamp (team_stats r i' j')
         \<and> isFirstSolved (team_stats (replaySubmission s r) i' j') = isFirstSolved (team_stats r i' j')"
      "\<And>j'. j' < length (problems (contest r)) \<Longrightarrow>
         first_solves (replaySubmission s r) j' = first_solves r j'"
      "\<forall>i j. teamsMap r (teamId s) = Some i \<and> problemsMap (contest r) (problemId s) = Some j \<longrightarrow>
         isSolved (team_stats r i j) \<or> isIgnore s \<or> isNotCalculatedPenaltyStatus s \<or> \<not> isAccepted s"
  | (solve) i j where
      "teamsMap r (teamId s) = Some i" "problemsMap (contest r) (problemId s) = Some j"
      "i < length (team_objects r)" "j < length (problems (contest r))"
      "\<not> isSolved (team_stats r i j)" "\<not> isIgnore s" "\<not> isNotCalculatedPenaltyStatus s" "isAccepted s"
      "\<And>i' j'. i' < length (team_objects r) \<Longrightarrow> j' < length (problems (contest r)) \<Longrightarrow>
         (i', j') \<noteq> (i, j) \<Longrightarrow> team_stats (replaySubmission s r) i' j' = team_stats r i' j'"
      "isSolved (team_stats (replaySubmission s r) i j)"
      "solvedTimestamp (team_stats (replaySubmission s r) i j) = timestamp s"
      "\<And>j'. j' < length (problems (contest r)) \<Longrightarrow> j' \<noteq> j \<Longrightarrow>
         first_solves (replaySubmission s r) j' = first_solves r j'"
      "if first_solves r j = [] \<or> timestamp (last (first_solves r j)) = timestamp s
       then isFirstSolved (team_stats (replaySubmission s r) i j)
            \<and> first_solves (replaySubmission s r) j = first_solves r j @ [s]
       else isFirstSolved (team_stats (replaySubmission s r) i j) = isFirstSolved (team_stats r i j)
            \<and> first_solves (replaySubmission s r) j = first_solves r j"
proof (cases rule: replaySubmission_cases [where s = s and r = r])
  case skip
  show ?thesis
  proof (rule same)
    show "\<forall>i j. teamsMap r (teamId s) = Some i \<and> problemsMap (contest r) (problemId s) = Some j \<longrightarrow>
         isSolved (team_stats r i j) \<or> isIgnore s \<or> isNotCalculatedPenaltyStatus s \<or> \<not> isAccepted s"
      using skip(2) by auto
  qed (simp_all add: skip(1))
next
  case (known i j t' ps' st')
  note k = replaySubmission_known [OF known]
  note ts = step_team_stats [OF known assms]
  note fs = step_first_solves [OF known]
  note b = replay_body_solve [OF known(3)]
  show ?thesis
  proof (cases "isSolved (team_stats r i j) \<or> isIgnore s \<or> isNotCalculatedPenaltyStatus s
      \<or> \<not> isAccepted s")
    case True
    with b have eq: "isSolved ps' = isSolved (team_stats r i j)"
      "solvedTimestamp ps' = solvedTimestamp (team_stats r i j)"
      "isFirstSolved ps' = isFirstSolved (team_stats r i j)"
      "firstSolveSubmissions st' = first_solves r j"
      by (simp_all add: first_solves_def)
    show ?thesis
    proof (rule same)
      fix i' j' assume "i' < length (team_objects r)" "j' < length (problems (contest r))"
      then show "isSolved (team_stats (replaySubmission s r) i' j') = isSolved (team_stats r i' j')
         \<and> solvedTimestamp (team_stats (replaySubmission s r) i' j') = solvedTimestamp (team_stats r i' j')
         \<and> isFirstSolved (team_stats (replaySubmission s r) i' j') = isFirstSolved (team_stats r i' j')"
        using ts [of i' j'] eq by simp
    next
      fix j' assume "j' < length (problems (contest r))"
      then show "first_solves (replaySubmission s r) j' = first_solves r j'"
        using fs [of j'] eq by simp
    next
      show "\<forall>i j. teamsMap r (teamId s) = Some i \<and> problemsMap (contest r) (problemId s) = Some j \<longrightarrow>
         isSolved (team_stats r i j) \<or> isIgnore s \<or> isNotCalculatedPenaltyStatus s \<or> \<not> isAccepted s"
        using True known(1,2) by simp
    qed
  next
    case False
    with b have new: "isSolved ps'" "solvedTimestamp ps' = timestamp s"
      "if first_solves r j = [] \<or> timestamp (last (first_solves r j)) = timestamp s
       then isFirstSolved ps' \<and> firstSolveSubmissions st' = first_solves r j @ [s]
       else isFirstSolved ps' = isFirstSolved (team_stats r i j)
            \<and> firstSolveSubmissions st' = first_solves r j"
      by (simp_all add: first_solves_def)
    show ?thesis
    proof (rule solve [of i j])
      show "if first_solves r j = [] \<or> timestamp (last (first_solves r j)) = timestamp s
       then isFirstSolved (team_stats (replaySubmission s r) i j)
            \<and> first_solves (replaySubmission s r) j = first_solves r j @ [s]
       else isFirstSolved (team_stats (replaySubmission s r) i j) = isFirstSolved (team_stats r i j)
            \<and> first_solves (replaySubmission s r) j = first_solves r j"
        using new(3) ts [OF k(3,4)] fs [OF k(4)] by simp
    next
      fix i' j' assume "i' < length (team_objects r)" "j' < length (problems (contest r))"
        "(i', j') \<noteq> (i, j)"
      then show "team_stats (replaySubmission s r) i' j' = team_stats r i' j'"
        using ts [of i' j'] by auto
    next
      fix j' assume "j' < length (problems (contest r))" "j' \<noteq> j"
      then show "first_solves (replaySubmission s r) j' = first_solves r j'"
        using fs [of j'] by simp
    next
      show "isSolved (team_stats (replaySubmission s r) i j)"
        "solvedTimestamp (team_stats (replaySubmission s r) i j) = timestamp s"
        using new(1,2) ts [OF k(3,4)] by simp_all
    qed (use known k False in simp_all)
  qed
qed

lemma step_before:
  assumes "shaped r" and "solves_before r T" and "timestamp s \<le> T"
  shows "solves_before (replaySubmission s r) T"
  using assms(1)
proof (cases rule: step_bookkeeping [where s = s and r = r])
  case same
  with assms(2) show ?thesis
    by (simp add: solves_before_def replaySubmission_lengths)
next
  case (solve i j)
  show ?thesis
    unfolding solves_before_def replaySubmission_lengths [THEN conjunct1]
      replaySubmission_lengths [THEN conjunct2]
  proof (intro allI impI)
    fix i' j'
    assume b: "i' < length (team_objects r)" "j' < length (problems (contest r))"
      and sol: "isSolved (team_stats (replaySubmission s r) i' j')"
    show "solvedTimestamp (team_stats (replaySubmission s r) i' j') \<le> T"
    proof (cases "(i', j') = (i, j)")
      case True
      with solve(11) assms(3) show ?thesis by simp
    next
      case False
      with solve(9) [OF b] sol assms(2) b show ?thesis
        by (simp add: solves_before_def)
    qed
  qed
qed

lemma step_inv:
  assumes inv: "first_solve_inv r" and before: "solves_before r (timestamp s)"
  shows "first_solve_inv (replaySubmission s r)"
proof -
  let ?r' = "replaySubmission s r"
  let ?n = "length (team_objects r)" and ?m = "length (problems (contest r))"
  from inv have sh: "shaped r"
    by (simp add: first_solve_inv_def)
  have I2: "first_solves r j \<noteq> [] \<and> (\<forall>x\<in>set (first_solves r j). timestamp x \<le> solvedTimestamp (team_stats r i j))"
    if "i < ?n" "j < ?m" "isSolved (team_stats r i j)" for i j
    using inv that unfolding first_solve_inv_def by blast
  have I6: "\<not> isFirstSolved (team_stats r i j)"
    if "i < ?n" "j < ?m" "\<not> isSolved (team_stats r i j)" for i j
    using inv that unfolding first_solve_inv_def by blast
  have I4: "\<exists>i<?n. isSolved (team_stats r i j) \<and> solvedTimestamp (team_stats r i j) = timestamp x"
    if "j < ?m" "x \<in> set (first_solves r j)" for j x
    using inv that unfolding first_solve_inv_def by blast
  have B: "solvedTimestamp (team_stats r i j) \<le> timestamp s"
    if "i < ?n" "j < ?m" "isSolved (team_stats r i j)" for i j
    using before that unfolding solves_before_def by blast
  from sh show ?thesis
  proof (cases rule: step_bookkeeping [where s = s and r = r])
    case same
    with inv show ?thesis
      unfolding first_solve_inv_def
      by (simp add: replaySubmission_lengths replaySubmission_shaped cong: conj_cong)
  next
    case (solve i j)
    let ?F = "first_solves r j"
    have F': "first_solves ?r' j = ?F \<or> first_solves ?r' j = ?F @ [s]
        \<and> (?F = [] \<or> timestamp (last ?F) = timestamp s)"
      using solve(13) by (simp split: if_splits)
    have F'_ne: "first_solves ?r' j \<noteq> []"
      using solve(13) by (auto split: if_splits)
    have old_le: "timestamp x \<le> timestamp s" if "x \<in> set ?F" for x
      using I4 [OF solve(4) that] B solve(4) by force
    have new_le: "timestamp s \<le> solvedTimestamp (team_stats r i' j)"
      if "first_solves ?r' j = ?F @ [s]" "i' < ?n" "isSolved (team_stats r i' j)" for i'
    proof -
      from I2 [OF that(2) solve(4) that(3)] have ne: "?F \<noteq> []"
        and le: "\<forall>x\<in>set ?F. timestamp x \<le> solvedTimestamp (team_stats r i' j)"
        by simp_all
      from ne solve(13) that(1) have "timestamp (last ?F) = timestamp s"
        by (simp split: if_splits)
      moreover from ne have "last ?F \<in> set ?F" by simp
      ultimately show ?thesis using le by metis
    qed
    show ?thesis
      unfolding first_solve_inv_def replaySubmission_lengths [THEN conjunct1]
        replaySubmission_lengths [THEN conjunct2]
    proof (intro conjI allI impI ballI)
      show "shaped ?r'"
        using sh by (rule replaySubmission_shaped)
    next
      fix j' i'
      assume b: "j' < ?m" "i' < ?n" and sol: "isSolved (team_stats ?r' i' j')"
      show "first_solves ?r' j' \<noteq> []"
      proof (cases "j' = j")
        case True
        with F'_ne show ?thesis by simp
      next
        case False
        with solve(9) [OF b(2,1)] solve(12) [OF b(1)] sol I2 [OF b(2,1)] show ?thesis
          by simp
      qed
    next
      fix j' i' x
      assume b: "j' < ?m" "i' < ?n" and sol: "isSolved (team_stats ?r' i' j')"
        and x: "x \<in> set (first_solves ?r' j')"
      show "timestamp x \<le> solvedTimestamp (team_stats ?r' i' j')"
      proof (cases "j' = j")
        case False
        with solve(9) [OF b(2,1)] solve(12) [OF b(1)] sol x I2 [OF b(2,1)] show ?thesis
          by simp
      next
        case True
        show ?thesis
        proof (cases "i' = i")
          case True
          with \<open>j' = j\<close> solve(11) x F' old_le show ?thesis
            by auto
        next
          case False
          with \<open>j' = j\<close> solve(9) [OF b(2,1)]
          have same: "team_stats ?r' i' j' = team_stats r i' j" by simp
          with sol have sol0: "isSolved (team_stats r i' j)" by simp
          from x \<open>j' = j\<close> F' consider "x \<in> set ?F" | "x = s" "first_solves ?r' j = ?F @ [s]"
            by auto
          then show ?thesis
          proof cases
            case 1
            with I2 [OF b(2) solve(4) sol0] same show ?thesis by simp
          next
            case 2
            with new_le [OF 2(2) b(2) sol0] same show ?thesis by simp
          qed
        qed
      qed
    next
      fix j' i'
      assume b: "j' < ?m" "i' < ?n" and nsol: "\<not> isSolved (team_stats ?r' i' j')"
      with solve(10) have "(i', j') \<noteq> (i, j)" by auto
      with solve(9) [OF b(2,1)] nsol I6 [OF b(2,1)]
      show "\<not> isFirstSolved (team_stats ?r' i' j')"
        by simp
    next
      fix j' x
      assume b: "j' < ?m" and x: "x \<in> set (first_solves ?r' j')"
      show "\<exists>i<?n. isSolved (team_stats ?r' i j') \<and> solvedTimestamp (team_stats ?r' i j') = timestamp x"
      proof (cases "j' = j")
        case False
        with solve(12) [OF b] x have "x \<in> set (first_solves r j')" by simp
        from I4 [OF b this] obtain i' where i': "i' < ?n" "isSolved (team_stats r i' j')"
          "solvedTimestamp (team_stats r i' j') = timestamp x"
          by blast
        with solve(9) [OF i'(1) b] False show ?thesis
          by auto
      next
        case True
        from x True F' consider "x \<in> set ?F" | "x = s"
          by auto
        then show ?thesis
        proof cases
          case 1
          from I4 [OF solve(4) this] obtain i' where i': "i' < ?n" "isSolved (team_stats r i' j)"
            "solvedTimestamp (team_stats r i' j) = timestamp x"
            by blast
          with solve(5) have "i' \<noteq> i" by auto
          with solve(9) [OF i'(1) solve(4)] i' True show ?thesis
            by auto
        next
          case 2
          with solve(3,10,11) True show ?thesis by auto
        qed
      qed
    qed
  qed
qed

lemma fold_update_distinct:
  assumes "distinct is" and "set is \<subseteq> {..<length st}"
  shows "fold (\<lambda>i st. st[i := f (st ! i)]) is st
           = map (\<lambda>k. if k \<in> set is then f (st ! k) else st ! k) [0..<length st]"
  using assms
proof (induction "is" arbitrary: st)
  case Nil
  then show ?case by (simp add: map_nth)
next
  case (Cons i "is")
  let ?st = "st[i := f (st ! i)]"
  from Cons.prems have "distinct is" "set is \<subseteq> {..<length ?st}" "i \<notin> set is" "i < length st"
    by auto
  with Cons.IH [of ?st] show ?case
    by (auto simp: nth_list_update intro!: nth_equalityI)
qed

lemma fold_update_all:
  assumes "distinct is" and "set is = {..<length st}"
  shows "fold (\<lambda>i st. st[i := f (st ! i)]) is st = map f st"
proof -
  have "fold (\<lambda>i st. st[i := f (st ! i)]) is st
      = map (\<lambda>k. if k \<in> set is then f (st ! k) else st ! k) [0..<length st]"
    using assms by (intro fold_update_distinct) simp_all
  also have "\<dots> = map (\<lambda>k. f (st ! k)) [0..<length st]"
    by (intro map_cong refl) (simp add: assms(2))
  also have "\<dots> = map f (map ((!) st) [0..<length st])"
    by (simp add: comp_def)
  also have "\<dots> = map f st"
    by (simp only: map_nth)
  finally show ?thesis .
qed

lemma resetTeams_all:
  "Rank_inv r \<Longrightarrow> team_objects (resetTeams r) = map (resetTeam (contest r)) (team_objects r)"
  by (simp add: resetTeams_def Rank_inv_def fold_update_all)

lemma reset_state:
  assumes "Rank_inv r"
  shows "first_solve_inv (resetProblems (resetTeams r))"
    and "solves_before (resetProblems (resetTeams r)) T"
proof -
  let ?r0 = "resetProblems (resetTeams r)"
  have objs: "team_objects ?r0 = map (resetTeam (contest r)) (team_objects r)"
    using resetTeams_all [OF assms] by (simp add: resetProblems_def)
  have probs: "problems (contest ?r0)
      = map (\<lambda>p. p\<lparr>statistics := ProblemStatistics_reset (statistics p)\<rparr>) (problems (contest r))"
    by (simp add: resetProblems_def resetTeams_def)
  have ts: "team_stats ?r0 i j = new_TeamProblemStatistics\<lparr>problem := j, contestPenalty := penalty_c (contest r)\<rparr>"
    if "i < length (team_objects r)" "j < length (problems (contest r))" for i j
    using that by (simp add: team_stats_def objs resetTeam_def)
  have fs: "first_solves ?r0 j = []" if "j < length (problems (contest r))" for j
    using that by (simp add: first_solves_def probs ProblemStatistics_reset_def)
  have sh: "shaped ?r0"
    by (simp add: shaped_def objs probs resetTeam_def)
  show "first_solve_inv ?r0"
    unfolding first_solve_inv_def using sh
    by (simp add: objs probs) (simp add: ts fs new_TeamProblemStatistics_def flip: objs probs)
  show "solves_before ?r0 T"
    unfolding solves_before_def
    by (simp add: objs probs) (simp add: ts new_TeamProblemStatistics_def flip: objs probs)
qed

lemma replay_inv:
  assumes "sorted (map timestamp ss)" and "first_solve_inv r"
    and "\<forall>x\<in>set ss. solves_before r (timestamp x)"
  shows "first_solve_inv (replay ss r)
     \<and> (\<forall>T. solves_before r T \<and> (\<forall>x\<in>set ss. timestamp x \<le> T) \<longrightarrow> solves_before (replay ss r) T)"
  using assms
proof (induction ss arbitrary: r)
  case Nil
  then show ?case by (simp add: replay_def)
next
  case (Cons s ss)
  from Cons.prems(2) have sh: "shaped r"
    by (simp add: first_solve_inv_def)
  have inv': "first_solve_inv (replaySubmission s r)"
    using Cons.prems by (intro step_inv) simp_all
  have before': "solves_before (replaySubmission s r) T"
    if "solves_before r T" "timestamp s \<le> T" for T
    using sh that by (rule step_before)
  have "\<forall>x\<in>set ss. solves_before (replaySubmission s r) (timestamp x)"
    using Cons.prems(1,3) before' by auto
  with Cons.IH [OF _ inv'] Cons.prems(1)
  have IH: "first_solve_inv (replay ss (replaySubmission s r))"
    "\<And>T. solves_before (replaySubmission s r) T \<Longrightarrow> (\<forall>x\<in>set ss. timestamp x \<le> T)
        \<Longrightarrow> solves_before (replay ss (replaySubmission s r)) T"
    by auto
  show ?case
    using IH before' by (auto simp: replay_Cons)
qed

lemma getSubmissions_sorted:
  "Rank_inv r \<Longrightarrow> sorted (map timestamp (getSubmissions r))"
  by (auto simp: getSubmissions_def Rank_inv_def sorted_sort_js sorted_timestamp
      consistent_Submission_compare)

lemma build_state_inv:
  assumes "Rank_inv r" and "getSubmissions r = pre @ post"
  shows "first_solve_inv (build_state r pre)"
    and "\<forall>x\<in>set post. solves_before (build_state r pre) (timestamp x)"
proof -
  let ?r0 = "resetProblems (resetTeams r)"
  have srt: "sorted (map timestamp (pre @ post))"
    using getSubmissions_sorted [OF assms(1)] assms(2) by simp
  then have "sorted (map timestamp pre)"
    by (simp add: sorted_append)
  from replay_inv [OF this reset_state(1) [OF assms(1)]] reset_state(2) [OF assms(1)]
  have *: "first_solve_inv (replay pre ?r0)"
    "\<And>T. (\<forall>x\<in>set pre. timestamp x \<le> T) \<Longrightarrow> solves_before (replay pre ?r0) T"
    by auto
  from *(1) show "first_solve_inv (build_state r pre)"
    by (simp add: build_state_def)
  show "\<forall>x\<in>set post. solves_before (build_state r pre) (timestamp x)"
    using srt *(2) by (auto simp: build_state_def sorted_append)
qed

lemma assignRank_map:
  assumes "\<And>t x. g (t\<lparr>rank := x\<rparr>) = g t"
  shows "map g (assignRank ts rk pre st) = map g st"
proof (induction ts arbitrary: rk pre st)
  case Nil
  then show ?case by simp
next
  case (Cons t ts)
  define st1 where "st1 = st[t := (st ! t)\<lparr>rank := rk\<rparr>]"
  define st2 where "st2 = (case pre of None \<Rightarrow> st1
    | Some p \<Rightarrow> if isEqualRank (st1 ! t) (st1 ! p)
        then st1[t := (st1 ! t)\<lparr>rank := rank (st1 ! p)\<rparr>] else st1)"
  have 1: "map g st1 = map g st"
    by (simp add: st1_def map_list_update_same assms)
  have 2: "map g st2 = map g st1"
    by (simp add: st2_def map_list_update_same assms split: option.splits)
  have "assignRank (t # ts) rk pre st = assignRank ts (rk + 1) (Some t) st2"
    unfolding st2_def st1_def by (simp add: Let_def)
  with Cons.IH 1 2 show ?case by simp
qed

lemma assignOrganizationRank_map:
  assumes "\<And>t x. g (t\<lparr>organizationRank := x\<rparr>) = g t"
  shows "map g (assignOrganizationRank ts rk pre se st) = map g st"
proof (induction ts arbitrary: rk pre se st)
  case Nil
  then show ?case by simp
next
  case (Cons t ts)
  show ?case
  proof (cases "organization (st ! t) \<in> se")
    case True
    with Cons.IH show ?thesis by simp
  next
    case False
    define st1 where "st1 = st[t := (st ! t)\<lparr>organizationRank := rk\<rparr>]"
    define st2 where "st2 = (case pre of None \<Rightarrow> st1
      | Some p \<Rightarrow> if isEqualRank (st1 ! t) (st1 ! p)
          then st1[t := (st1 ! t)\<lparr>organizationRank := organizationRank (st1 ! p)\<rparr>] else st1)"
    have 1: "map g st1 = map g st"
      by (simp add: st1_def map_list_update_same assms)
    have 2: "map g st2 = map g st1"
      by (simp add: st2_def map_list_update_same assms split: option.splits)
    have "assignOrganizationRank (t # ts) rk pre se st
        = assignOrganizationRank ts (rk + 1) (Some t) (insert (organization (st ! t)) se) st2"
      using False unfolding st2_def st1_def by (simp add: Let_def)
    with Cons.IH 1 2 show ?thesis by simp
  qed
qed

lemma finish_contest:
  "contest (buildStatistics (rankOrganizations (rankTeams (sortTeams tb (calcTeams \<sigma>))))) = contest \<sigma>"
  by (simp add: buildStatistics_def rankOrganizations_def rankTeams_def sortTeams_def calcTeams_def
      split: option.splits)

lemma finish_map:
  assumes "\<And>t x. g (t\<lparr>rank := x\<rparr>) = g t" and "\<And>t x. g (t\<lparr>organizationRank := x\<rparr>) = g t"
    and "\<And>t. g (calcSolvedData t) = g t"
  shows "map g (team_objects (buildStatistics (rankOrganizations (rankTeams (sortTeams tb (calcTeams \<sigma>))))))
           = map g (team_objects \<sigma>)"
proof -
  have "map g (team_objects (calcTeams \<sigma>)) = map g (team_objects \<sigma>)"
    by (simp add: calcTeams_def fold_update_map [where g = g and f = calcSolvedData] assms(3))
  then show ?thesis
    by (simp add: buildStatistics_def rankOrganizations_def rankTeams_def sortTeams_def
        assignRank_map [where g = g] assignOrganizationRank_map [where g = g] assms(1,2)
        split: option.splits)
qed

lemma buildRank_build_state:
  "buildRank tb r = buildStatistics (rankOrganizations (rankTeams (sortTeams tb (calcTeams
      (build_state r (getSubmissions r))))))"
  by (simp add: buildRank_def Let_def build_state_def resets_getSubmissions)

lemma buildRank_statistics:
  "contest (buildRank tb r) = contest (build_state r (getSubmissions r))"
  "map problemStatistics (team_objects (buildRank tb r))
     = map problemStatistics (team_objects (build_state r (getSubmissions r)))"
  unfolding buildRank_build_state
  by (simp_all add: finish_contest finish_map calcSolvedData_def)

lemma team_stats_cong:
  assumes "map problemStatistics (team_objects a) = map problemStatistics (team_objects b)"
    and "i < length (team_objects b)"
  shows "team_stats a i j = team_stats b i j"
proof -
  from assms(1) have "length (team_objects a) = length (team_objects b)"
    by (metis length_map)
  with assms have "map problemStatistics (team_objects a) ! i = map problemStatistics (team_objects b) ! i"
    by simp
  with assms(2) \<open>length (team_objects a) = length (team_objects b)\<close> show ?thesis
    by (simp add: team_stats_def)
qed

lemma step_first_iff:
  assumes inv: "first_solve_inv \<sigma>" and before: "solves_before \<sigma> (timestamp s)"
    and known: "teamsMap \<sigma> (teamId s) = Some i" "problemsMap (contest \<sigma>) (problemId s) = Some j"
    and counted: "\<not> isSolved (team_stats \<sigma> i j)" "\<not> isIgnore s"
      "\<not> isNotCalculatedPenaltyStatus s" "isAccepted s"
  shows "(first_solves (replaySubmission s \<sigma>) j = first_solves \<sigma> j @ [s] \<longleftrightarrow> earliest_or_tie \<sigma> j s)
     \<and> (isFirstSolved (team_stats (replaySubmission s \<sigma>) i j) \<longleftrightarrow> earliest_or_tie \<sigma> j s)
     \<and> (\<not> earliest_or_tie \<sigma> j s \<longrightarrow> first_solves (replaySubmission s \<sigma>) j = first_solves \<sigma> j)"
proof -
  let ?n = "length (team_objects \<sigma>)" and ?F = "first_solves \<sigma> j"
  from inv have sh: "shaped \<sigma>"
    by (simp add: first_solve_inv_def)
  from sh show ?thesis
  proof (cases rule: step_bookkeeping [where s = s and r = \<sigma>])
    case same
    with known counted show ?thesis by blast
  next
    case (solve i' j')
    with known have ij: "i' = i" "j' = j" by simp_all
    note solve = solve [unfolded ij]
    have I2: "?F \<noteq> [] \<and> (\<forall>x\<in>set ?F. timestamp x \<le> solvedTimestamp (team_stats \<sigma> k j))"
      if "k < ?n" "isSolved (team_stats \<sigma> k j)" for k
      using inv that solve(4) unfolding first_solve_inv_def by blast
    have I4: "\<exists>k<?n. isSolved (team_stats \<sigma> k j) \<and> solvedTimestamp (team_stats \<sigma> k j) = timestamp x"
      if "x \<in> set ?F" for x
      using inv that solve(4) unfolding first_solve_inv_def by blast
    have I6: "\<not> isFirstSolved (team_stats \<sigma> i j)"
      using inv solve(3,4,5) unfolding first_solve_inv_def by blast
    have B: "solvedTimestamp (team_stats \<sigma> k j) \<le> timestamp s"
      if "k < ?n" "isSolved (team_stats \<sigma> k j)" for k
      using before that solve(4) unfolding solves_before_def by blast
    have cond: "earliest_or_tie \<sigma> j s \<longleftrightarrow> (?F = [] \<or> timestamp (last ?F) = timestamp s)"
    proof
      assume e: "earliest_or_tie \<sigma> j s"
      show "?F = [] \<or> timestamp (last ?F) = timestamp s"
      proof (cases "?F = []")
        case False
        then have "last ?F \<in> set ?F" by simp
        from I4 [OF this] obtain k where k: "k < ?n" "isSolved (team_stats \<sigma> k j)"
          "solvedTimestamp (team_stats \<sigma> k j) = timestamp (last ?F)"
          by blast
        with e have "timestamp s \<le> timestamp (last ?F)"
          unfolding earliest_or_tie_def by force
        moreover from B [OF k(1,2)] k(3) have "timestamp (last ?F) \<le> timestamp s"
          by simp
        ultimately show ?thesis by simp
      qed simp
    next
      assume c: "?F = [] \<or> timestamp (last ?F) = timestamp s"
      show "earliest_or_tie \<sigma> j s"
        unfolding earliest_or_tie_def
      proof (intro allI impI)
        fix k assume k: "k < ?n" "isSolved (team_stats \<sigma> k j)"
        from I2 [OF k] have ne: "?F \<noteq> []"
          and le: "\<forall>x\<in>set ?F. timestamp x \<le> solvedTimestamp (team_stats \<sigma> k j)"
          by simp_all
        from ne c have "timestamp (last ?F) = timestamp s" by simp
        moreover from ne have "last ?F \<in> set ?F" by simp
        ultimately show "timestamp s \<le> solvedTimestamp (team_stats \<sigma> k j)"
          using le by metis
      qed
    qed
    from solve(13) I6 show ?thesis
      unfolding cond by (auto split: if_splits)
  qed
qed

subsection \<open>First solves\<close>

lemma build_state_snoc: "build_state r (pre @ [s]) = replaySubmission s (build_state r pre)"
  by (simp add: build_state_def replay_append replay_Cons replay_def)

lemma build_state_maps:
  "teamsMap (build_state r pre) = teamsMap r
   \<and> problemsMap (contest (build_state r pre)) = problemsMap (contest r)"
  by (simp add: build_state_def replay_maps resets_maps)

lemma replay_same_timestamp:
  assumes "\<forall>j<length (problems (contest r)). same_timestamp (first_solves r j)"
  shows "\<forall>j<length (problems (contest (replay ss r))). same_timestamp (first_solves (replay ss r) j)"
  using assms
proof (induction ss arbitrary: r)
  case Nil
  then show ?case by (simp add: replay_def)
next
  case (Cons s ss)
  have "\<forall>j<length (problems (contest (replaySubmission s r))).
      same_timestamp (first_solves (replaySubmission s r) j)"
    using step_same_timestamp [OF Cons.prems] by (simp add: replaySubmission_lengths)
  from Cons.IH [OF this] show ?case
    by (simp add: replay_Cons)
qed

lemma build_state_same_timestamp:
  "\<forall>j<length (problems (contest (build_state r pre))).
     same_timestamp (first_solves (build_state r pre) j)"
  unfolding build_state_def
proof (rule replay_same_timestamp)
  show "\<forall>j<length (problems (contest (resetProblems (resetTeams r)))).
      same_timestamp (first_solves (resetProblems (resetTeams r)) j)"
    by (simp add: same_timestamp_def first_solves_def resetProblems_def ProblemStatistics_reset_def)
qed

lemma step_first_append:
  assumes "j < length (problems (contest \<sigma>))"
  shows "first_solves (replaySubmission s \<sigma>) j = first_solves \<sigma> j
     \<or> (first_solves (replaySubmission s \<sigma>) j = first_solves \<sigma> j @ [s]
        \<and> (first_solves \<sigma> j = [] \<or> timestamp (last (first_solves \<sigma> j)) = timestamp s))"
proof (cases rule: replaySubmission_cases [where s = s and r = \<sigma>])
  case skip
  then show ?thesis by simp
next
  case (known i' j' t' ps' st')
  from step_first_solves [OF known assms] replay_body_first [OF known(3)]
  show ?thesis
    by (auto simp: first_solves_def)
qed

text \<open>
  C9: at every point of the replay (after the resets and any sequence \<open>pre\<close> of
  submissions) the submissions in the first-solve list of every problem have the same
  timestamp; and one iteration either leaves a first-solve list as it is or appends its
  submission, the latter only when the list is empty or its last entry has the
  timestamp of the submission.
\<close>

theorem C9_first_solve_same_timestamp:
  "(\<forall>j<length (problems (contest (build_state r pre))).
      same_timestamp (first_solves (build_state r pre) j))
   \<and> (\<forall>j<length (problems (contest \<sigma>)).
        first_solves (replaySubmission s \<sigma>) j = first_solves \<sigma> j
        \<or> (first_solves (replaySubmission s \<sigma>) j = first_solves \<sigma> j @ [s]
           \<and> (first_solves \<sigma> j = [] \<or> timestamp (last (first_solves \<sigma> j)) = timestamp s)))"
  using build_state_same_timestamp [of r pre] step_first_append [of _ \<sigma> s] by blast

lemma ex_build_state_3:
  "first_solves (build_state ex_rank (take 3 ex_submissions)) 0
     = [ex_submission ''2'' ''t1'' ''A'' 3000 True, ex_submission ''3'' ''t3'' ''A'' 3000 True]"
  "first_solves (build_state ex_rank (take 2 ex_submissions)) 0
     = [ex_submission ''2'' ''t1'' ''A'' 3000 True]"
  "length (problems (contest (build_state ex_rank (take 2 ex_submissions)))) = 2"
  "length (problems (contest (build_state ex_rank (take 3 ex_submissions)))) = 2"
  by (simp_all add: build_state_def first_solves_def ex_defs build_defs Let_def upt_rec)

theorem C9_first_solve_same_timestamp_witness:
  "0 < length (problems (contest (build_state ex_rank (take 3 ex_submissions))))
   \<and> first_solves (build_state ex_rank (take 3 ex_submissions)) 0
       = [ex_submission ''2'' ''t1'' ''A'' 3000 True, ex_submission ''3'' ''t3'' ''A'' 3000 True]
   \<and> same_timestamp (first_solves (build_state ex_rank (take 3 ex_submissions)) 0)
   \<and> first_solves (replaySubmission (ex_submission ''3'' ''t3'' ''A'' 3000 True)
         (build_state ex_rank (take 2 ex_submissions))) 0
       = first_solves (build_state ex_rank (take 2 ex_submissions)) 0
           @ [ex_submission ''3'' ''t3'' ''A'' 3000 True]
   \<and> timestamp (last (first_solves (build_state ex_rank (take 2 ex_submissions)) 0))
       = timestamp (ex_submission ''3'' ''t3'' ''A'' 3000 True)"
proof -
  let ?s3 = "ex_submission ''3'' ''t3'' ''A'' 3000 True"
  have snoc: "build_state ex_rank (take 3 ex_submissions)
      = replaySubmission ?s3 (build_state ex_rank (take 2 ex_submissions))"
    by (simp add: ex_submissions_def flip: build_state_snoc)
  note c9 = C9_first_solve_same_timestamp
    [of ex_rank "take 3 ex_submissions" "build_state ex_rank (take 2 ex_submissions)" ?s3]
  from c9 ex_build_state_3(4) have "same_timestamp (first_solves (build_state ex_rank (take 3 ex_submissions)) 0)"
    by simp
  moreover from c9 ex_build_state_3(3)
  have "first_solves (replaySubmission ?s3 (build_state ex_rank (take 2 ex_submissions))) 0
          = first_solves (build_state ex_rank (take 2 ex_submissions)) 0
     \<or> (first_solves (replaySubmission ?s3 (build_state ex_rank (take 2 ex_submissions))) 0
          = first_solves (build_state ex_rank (take 2 ex_submissions)) 0 @ [?s3]
        \<and> (first_solves (build_state ex_rank (take 2 ex_submissions)) 0 = []
           \<or> timestamp (last (first_solves (build_state ex_rank (take 2 ex_submissions)) 0))
               = timestamp ?s3))"
    by simp
  ultimately show ?thesis
    using ex_build_state_3 by (simp add: snoc [symmetric])
qed


lemma first_solve_inv_buildRank:
  assumes "Rank_inv r"
  shows "first_solve_inv (buildRank tb r)"
proof -
  let ?\<sigma> = "build_state r (getSubmissions r)"
  have inv: "first_solve_inv ?\<sigma>"
    using build_state_inv(1) [OF assms, of "getSubmissions r" "[]"] by simp
  have len: "length (team_objects (buildRank tb r)) = length (team_objects ?\<sigma>)"
    using buildRank_statistics(2) [of tb r] by (metis length_map)
  have ts: "team_stats (buildRank tb r) i j = team_stats ?\<sigma> i j"
    if "i < length (team_objects ?\<sigma>)" for i j
    using buildRank_statistics(2) that by (rule team_stats_cong)
  have fs: "first_solves (buildRank tb r) j = first_solves ?\<sigma> j" for j
    by (simp add: first_solves_def buildRank_statistics(1))
  have "shaped (buildRank tb r)"
    using inv buildRank_statistics [of tb r] len
    unfolding first_solve_inv_def shaped_def
    by (metis nth_map)
  with inv show ?thesis
    unfolding first_solve_inv_def len buildRank_statistics(1) fs
    by (simp add: ts cong: conj_cong)
qed

text \<open>
  C3: let the visible submissions of a Rank be \<open>pre @ s # post\<close>, and let \<open>s\<close> be
  accepted, counted (neither ignored nor of a verdict outside the penalty) and on a
  problem \<open>j\<close> that its team \<open>i\<close> has not solved after \<open>pre\<close>.  The iteration for
  \<open>s\<close> appends \<open>s\<close> to the first-solve list of \<open>j\<close>, and marks the statistics of the
  team first-solved, exactly when the timestamp of \<open>s\<close> is at most every solving
  timestamp recorded for \<open>j\<close> so far; otherwise the list stays as it is.  After
  buildRank, the timestamp of every submission in the first-solve list of a problem is
  the solving timestamp of some team and is at most the solving timestamp of every team
  that solved the problem: it is the earliest solving timestamp of the problem.
\<close>

theorem C3_first_solve:
  assumes "Rank_inv r"
  shows "(getSubmissions r = pre @ s # post
          \<and> teamsMap r (teamId s) = Some i \<and> problemsMap (contest r) (problemId s) = Some j
          \<and> \<not> isSolved (team_stats (build_state r pre) i j)
          \<and> \<not> isIgnore s \<and> \<not> isNotCalculatedPenaltyStatus s \<and> isAccepted s
        \<longrightarrow>
          (first_solves (build_state r (pre @ [s])) j = first_solves (build_state r pre) j @ [s]
             \<longleftrightarrow> earliest_or_tie (build_state r pre) j s)
          \<and> (isFirstSolved (team_stats (build_state r (pre @ [s])) i j)
             \<longleftrightarrow> earliest_or_tie (build_state r pre) j s)
          \<and> (\<not> earliest_or_tie (build_state r pre) j s
             \<longrightarrow> first_solves (build_state r (pre @ [s])) j = first_solves (build_state r pre) j))
     \<and> (\<forall>k<length (problems (contest (buildRank tb r))).
          \<forall>x\<in>set (first_solves (buildRank tb r) k).
            (\<exists>t<length (team_objects (buildRank tb r)).
               isSolved (team_stats (buildRank tb r) t k)
               \<and> solvedTimestamp (team_stats (buildRank tb r) t k) = timestamp x)
            \<and> (\<forall>t<length (team_objects (buildRank tb r)).
                 isSolved (team_stats (buildRank tb r) t k)
                 \<longrightarrow> timestamp x \<le> solvedTimestamp (team_stats (buildRank tb r) t k)))"
proof -
  let ?\<sigma> = "build_state r pre"
  have "(first_solves (build_state r (pre @ [s])) j = first_solves ?\<sigma> j @ [s]
             \<longleftrightarrow> earliest_or_tie ?\<sigma> j s)
          \<and> (isFirstSolved (team_stats (build_state r (pre @ [s])) i j)
             \<longleftrightarrow> earliest_or_tie ?\<sigma> j s)
          \<and> (\<not> earliest_or_tie ?\<sigma> j s
             \<longrightarrow> first_solves (build_state r (pre @ [s])) j = first_solves ?\<sigma> j)"
    if a: "getSubmissions r = pre @ s # post
          \<and> teamsMap r (teamId s) = Some i \<and> problemsMap (contest r) (problemId s) = Some j
          \<and> \<not> isSolved (team_stats ?\<sigma> i j)
          \<and> \<not> isIgnore s \<and> \<not> isNotCalculatedPenaltyStatus s \<and> isAccepted s"
  proof -
    from a have vis: "getSubmissions r = pre @ (s # post)" by simp
    note st = build_state_inv [OF assms vis]
    from st(2) have before: "solves_before ?\<sigma> (timestamp s)" by simp
    from a have known: "teamsMap ?\<sigma> (teamId s) = Some i"
      "problemsMap (contest ?\<sigma>) (problemId s) = Some j"
      by (simp_all add: build_state_maps)
    from a have counted: "\<not> isSolved (team_stats ?\<sigma> i j)" "\<not> isIgnore s"
      "\<not> isNotCalculatedPenaltyStatus s" "isAccepted s"
      by simp_all
    show ?thesis
      unfolding build_state_snoc
      by (rule step_first_iff [OF st(1) before known counted])
  qed
  moreover have "\<forall>k<length (problems (contest (buildRank tb r))).
          \<forall>x\<in>set (first_solves (buildRank tb r) k).
            (\<exists>t<length (team_objects (buildRank tb r)).
               isSolved (team_stats (buildRank tb r) t k)
               \<and> solvedTimestamp (team_stats (buildRank tb r) t k) = timestamp x)
            \<and> (\<forall>t<length (team_objects (buildRank tb r)).
                 isSolved (team_stats (buildRank tb r) t k)
                 \<longrightarrow> timestamp x \<le> solvedTimestamp (team_stats (buildRank tb r) t k))"
    using first_solve_inv_buildRank [OF assms, of tb]
    unfolding first_solve_inv_def by blast
  ultimately show ?thesis by blast
qed


lemma ex_Rank_inv: "Rank_inv ex_rank"
proof -
  have "set [0, 1, 2 :: nat] = {..<3}"
    by auto
  moreover have "sorted_wrt (\<lambda>a b. Submission_compare a b \<le> 0) ex_submissions"
    by (simp add: ex_submissions_def ex_submission_def Submission_compare_def)
  ultimately show ?thesis
    by (simp add: Rank_inv_def ex_rank_def ex_team_def)
qed

lemma ex_getSubmissions: "getSubmissions ex_rank = ex_submissions"
  by (simp add: getSubmissions_def ex_rank_def new_RankOptions_def)

lemma ex_final_state:
  "first_solves (build_state ex_rank ex_submissions) 0
     = [ex_submission ''2'' ''t1'' ''A'' 3000 True, ex_submission ''3'' ''t3'' ''A'' 3000 True]"
  "length (problems (contest (build_state ex_rank ex_submissions))) = 2"
  "length (team_objects (build_state ex_rank ex_submissions)) = 3"
  "isSolved (team_stats (build_state ex_rank ex_submissions) 0 0)"
  "solvedTimestamp (team_stats (build_state ex_rank ex_submissions) 0 0) = 3000"
  "isSolved (team_stats (build_state ex_rank ex_submissions) 1 0)"
  "solvedTimestamp (team_stats (build_state ex_rank ex_submissions) 1 0) = 4200"
  by (simp_all add: build_state_def first_solves_def team_stats_def ex_defs build_defs Let_def upt_rec)

lemma ex_build_state_2:
  "\<not> isSolved (team_stats (build_state ex_rank (take 2 ex_submissions)) 2 0)"
  by (simp add: build_state_def team_stats_def ex_defs build_defs Let_def upt_rec)

theorem C3_first_solve_witness:
  "Rank_inv ex_rank
   \<and> getSubmissions ex_rank
       = take 2 ex_submissions @ ex_submission ''3'' ''t3'' ''A'' 3000 True # drop 3 ex_submissions
   \<and> teamsMap ex_rank (teamId (ex_submission ''3'' ''t3'' ''A'' 3000 True)) = Some 2
   \<and> problemsMap (contest ex_rank) (problemId (ex_submission ''3'' ''t3'' ''A'' 3000 True)) = Some 0
   \<and> \<not> isSolved (team_stats (build_state ex_rank (take 2 ex_submissions)) 2 0)
   \<and> isAccepted (ex_submission ''3'' ''t3'' ''A'' 3000 True)
   \<and> first_solves (build_state ex_rank (take 2 ex_submissions @ [ex_submission ''3'' ''t3'' ''A'' 3000 True])) 0
       = first_solves (build_state ex_rank (take 2 ex_submissions)) 0
           @ [ex_submission ''3'' ''t3'' ''A'' 3000 True]
   \<and> earliest_or_tie (build_state ex_rank (take 2 ex_submissions)) 0
         (ex_submission ''3'' ''t3'' ''A'' 3000 True)
   \<and> isFirstSolved (team_stats (build_state ex_rank
         (take 2 ex_submissions @ [ex_submission ''3'' ''t3'' ''A'' 3000 True])) 2 0)
   \<and> 0 < length (problems (contest (buildRank (\<lambda>a b. 0) ex_rank)))
   \<and> ex_submission ''3'' ''t3'' ''A'' 3000 True \<in> set (first_solves (buildRank (\<lambda>a b. 0) ex_rank) 0)
   \<and> 1 < length (team_objects (buildRank (\<lambda>a b. 0) ex_rank))
   \<and> isSolved (team_stats (buildRank (\<lambda>a b. 0) ex_rank) 1 0)
   \<and> timestamp (ex_submission ''3'' ''t3'' ''A'' 3000 True)
       \<le> solvedTimestamp (team_stats (buildRank (\<lambda>a b. 0) ex_rank) 1 0)"
proof -
  let ?s = "ex_submission ''3'' ''t3'' ''A'' 3000 True"
  let ?pre = "take 2 ex_submissions"
  let ?b = "buildRank (\<lambda>a b. 0) ex_rank"
  have vis: "getSubmissions ex_rank = ?pre @ ?s # drop 3 ex_submissions"
    by (simp add: ex_getSubmissions) (simp add: ex_submissions_def)
  have t: "teamsMap ex_rank (teamId ?s) = Some 2"
    by (simp add: teamsMap_def ex_defs)
  have p: "problemsMap (contest ex_rank) (problemId ?s) = Some 0"
    by (simp add: problemsMap_def ex_defs)
  have v: "\<not> isIgnore ?s" "\<not> isNotCalculatedPenaltyStatus ?s" "isAccepted ?s"
    by (simp_all add: ex_submission_def)
  have app: "first_solves (build_state ex_rank (?pre @ [?s])) 0
      = first_solves (build_state ex_rank ?pre) 0 @ [?s]"
    using ex_build_state_3(1,2) by (simp add: ex_submissions_def)
  have fin: "contest ?b = contest (build_state ex_rank ex_submissions)"
    "team_stats ?b 1 0 = team_stats (build_state ex_rank ex_submissions) 1 0"
    "length (team_objects ?b) = 3"
    using buildRank_statistics [of "\<lambda>a b. 0" ex_rank] ex_final_state(3)
      team_stats_cong [of ?b "build_state ex_rank ex_submissions" 1 0]
    by (simp_all add: ex_getSubmissions) (metis length_map)
  have k: "0 < length (problems (contest ?b))"
    and x: "?s \<in> set (first_solves ?b 0)"
    and n: "1 < length (team_objects ?b)"
    and sol: "isSolved (team_stats ?b 1 0)"
    using fin ex_final_state by (simp_all add: first_solves_def)
  note c3 = C3_first_solve [OF ex_Rank_inv, of ?pre ?s "drop 3 ex_submissions" 2 0 "\<lambda>a b. 0"]
  from c3 vis t p ex_build_state_2 v app
  have "earliest_or_tie (build_state ex_rank ?pre) 0 ?s"
    and "isFirstSolved (team_stats (build_state ex_rank (?pre @ [?s])) 2 0)"
    by blast+
  moreover from c3 k x n sol
  have "timestamp ?s \<le> solvedTimestamp (team_stats ?b 1 0)"
    by blast
  ultimately show ?thesis
    using ex_Rank_inv vis t p ex_build_state_2 v app k x n sol by blast
qed

subsection \<open>Idempotence of buildRank\<close>

lemma resetTeam_eq:
  assumes "id_t t = id_t t'" and "organization t = organization t'"
    and "penalty_c c = penalty_c c'" and "length (problems c) = length (problems c')"
  shows "resetTeam c t = resetTeam c' t'"
  using assms by (cases t, cases t') (simp add: resetTeam_def Team_reset_def)

lemma reset_statistics_eq:
  assumes "id_p (p :: Problem) = id_p (p' :: Problem)"
  shows "p\<lparr>statistics := ProblemStatistics_reset (statistics p)\<rparr>
       = p'\<lparr>statistics := ProblemStatistics_reset (statistics p')\<rparr>"
  using assms by (cases p, cases p') (simp add: ProblemStatistics_reset_def)

lemma map_eq_by_key:
  assumes "map k xs = map k ys" and "\<And>x y. k x = k y \<Longrightarrow> f x = g y"
  shows "map f xs = map g ys"
proof -
  from assms(1) have len: "length xs = length ys"
    by (metis length_map)
  show ?thesis
  proof (rule nth_equalityI)
    show "length (map f xs) = length (map g ys)"
      using len by simp
  next
    fix i assume "i < length (map f xs)"
    then have i: "i < length xs" "i < length ys"
      using len by simp_all
    with assms(1) have "k (xs ! i) = k (ys ! i)"
      by (metis nth_map)
    with i assms(2) show "map f xs ! i = map g ys ! i"
      by simp
  qed
qed

text \<open>The part of a contest that a build never writes.\<close>

lemma replaySubmission_contest_frame:
  "(contest (replaySubmission s r))\<lparr>problems := []\<rparr> = (contest r)\<lparr>problems := []\<rparr>"
  by (simp add: replaySubmission_def Let_def split: option.splits prod.splits)

lemma replay_contest_frame:
  "(contest (replay ss r))\<lparr>problems := []\<rparr> = (contest r)\<lparr>problems := []\<rparr>"
  unfolding replay_def
  by (induction ss arbitrary: r) (simp_all add: replaySubmission_contest_frame)

lemma replay_ids:
  "map id_t (team_objects (replay ss r)) = map id_t (team_objects r)
   \<and> map id_p (problems (contest (replay ss r))) = map id_p (problems (contest r))"
  unfolding replay_def
  by (induction ss arbitrary: r) (simp_all add: replaySubmission_ids)

lemma replaySubmission_organization:
  "map organization (team_objects (replaySubmission s r)) = map organization (team_objects r)"
  by (auto simp: replaySubmission_def Let_def map_list_update_same
      split: option.splits prod.splits dest: replay_body_team)

lemma replay_organization:
  "map organization (team_objects (replay ss r)) = map organization (team_objects r)"
  unfolding replay_def
  by (induction ss arbitrary: r) (simp_all add: replaySubmission_organization)

lemma replaySubmission_rest:
  "teams (replaySubmission s r) = teams r \<and> submissions (replaySubmission s r) = submissions r
   \<and> options (replaySubmission s r) = options r
   \<and> teamSolvedNum (replaySubmission s r) = teamSolvedNum r"
  by (simp add: replaySubmission_def Let_def split: option.splits prod.splits)

lemma replay_rest:
  "teams (replay ss r) = teams r \<and> submissions (replay ss r) = submissions r
   \<and> options (replay ss r) = options r \<and> teamSolvedNum (replay ss r) = teamSolvedNum r"
  unfolding replay_def
  by (induction ss arbitrary: r) (simp_all add: replaySubmission_rest)

text \<open>The replay reads neither the order of the teams nor the histogram.\<close>

lemma replaySubmission_order:
  "replaySubmission s (r\<lparr>teams := ts, teamSolvedNum := h\<rparr>)
     = (replaySubmission s r)\<lparr>teams := ts, teamSolvedNum := h\<rparr>"
  by (simp add: replaySubmission_def teamsMap_def Let_def split: option.splits prod.splits)

lemma replay_order:
  "replay ss (r\<lparr>teams := ts, teamSolvedNum := h\<rparr>) = (replay ss r)\<lparr>teams := ts, teamSolvedNum := h\<rparr>"
  unfolding replay_def
  by (induction ss arbitrary: r) (simp_all add: replaySubmission_order)


lemma Rank_eqI:
  fixes a b :: Rank
  assumes "contest a = contest b" and "team_objects a = team_objects b" and "teams a = teams b"
    and "submissions a = submissions b" and "teamSolvedNum a = teamSolvedNum b"
    and "options a = options b"
  shows "a = b"
  using assms by (cases a, cases b) simp

lemma Contest_problems_eqI:
  fixes c c' :: Contest
  assumes "c\<lparr>problems := []\<rparr> = c'\<lparr>problems := []\<rparr>"
  shows "c\<lparr>problems := ps\<rparr> = c'\<lparr>problems := ps\<rparr>"
  using assms by (cases c, cases c') simp

lemma Contest_frame_fields:
  fixes c c' :: Contest
  assumes "c\<lparr>problems := []\<rparr> = c'\<lparr>problems := []\<rparr>"
  shows "penalty_c c = penalty_c c'" and "organization_c c = organization_c c'"
  using assms by (cases c, cases c', simp)+

lemma calcTeams_all:
  assumes "Rank_inv r"
  shows "calcTeams r = r\<lparr>team_objects := map calcSolvedData (team_objects r)\<rparr>"
  using assms by (simp add: calcTeams_def Rank_inv_def fold_update_all)

lemma resets_all:
  assumes "Rank_inv r"
  shows "resetProblems (resetTeams r) =
     r\<lparr>team_objects := map (resetTeam (contest r)) (team_objects r),
       contest := (contest r)\<lparr>problems :=
         map (\<lambda>p. p\<lparr>statistics := ProblemStatistics_reset (statistics p)\<rparr>) (problems (contest r))\<rparr>\<rparr>"
  using resetTeams_all [OF assms]
  by (intro Rank_eqI) (simp_all add: resetProblems_def resetTeams_def)

lemma Rank_inv_cong:
  assumes "teams a = teams b" and "length (team_objects a) = length (team_objects b)"
    and "submissions a = submissions b"
  shows "Rank_inv a = Rank_inv b"
  using assms by (simp add: Rank_inv_def)

lemma build_state_frame:
  "teams (build_state r ss) = teams r" "submissions (build_state r ss) = submissions r"
  "options (build_state r ss) = options r" "teamSolvedNum (build_state r ss) = teamSolvedNum r"
  "map id_t (team_objects (build_state r ss)) = map id_t (team_objects r)"
  "map organization (team_objects (build_state r ss)) = map organization (team_objects r)"
  "map id_p (problems (contest (build_state r ss))) = map id_p (problems (contest r))"
  "(contest (build_state r ss))\<lparr>problems := []\<rparr> = (contest r)\<lparr>problems := []\<rparr>"
proof -
  let ?r0 = "resetProblems (resetTeams r)"
  have org: "organization (resetTeam c x) = organization x" for c x
    by (simp add: resetTeam_def Team_reset_def)
  have idt: "id_t (resetTeam c x) = id_t x" for c x
    by (simp add: resetTeam_def Team_reset_def)
  have r0: "teams ?r0 = teams r" "submissions ?r0 = submissions r" "options ?r0 = options r"
    "teamSolvedNum ?r0 = teamSolvedNum r"
    "map id_t (team_objects ?r0) = map id_t (team_objects r)"
    "map organization (team_objects ?r0) = map organization (team_objects r)"
    "map id_p (problems (contest ?r0)) = map id_p (problems (contest r))"
    "(contest ?r0)\<lparr>problems := []\<rparr> = (contest r)\<lparr>problems := []\<rparr>"
    by (simp_all add: resetProblems_def resetTeams_def comp_def
        fold_update_map [where g = id_t and f = "resetTeam (contest r)"]
        fold_update_map [where g = organization and f = "resetTeam (contest r)"] org idt)
  show "teams (build_state r ss) = teams r" "submissions (build_state r ss) = submissions r"
    "options (build_state r ss) = options r" "teamSolvedNum (build_state r ss) = teamSolvedNum r"
    "map id_t (team_objects (build_state r ss)) = map id_t (team_objects r)"
    "map organization (team_objects (build_state r ss)) = map organization (team_objects r)"
    "map id_p (problems (contest (build_state r ss))) = map id_p (problems (contest r))"
    "(contest (build_state r ss))\<lparr>problems := []\<rparr> = (contest r)\<lparr>problems := []\<rparr>"
    unfolding build_state_def
    by (simp_all add: replay_rest replay_ids replay_organization replay_contest_frame r0)
qed

lemma finish_frame:
  "teams (buildStatistics (rankOrganizations (rankTeams (sortTeams tb (calcTeams \<sigma>)))))
     = sort_js (\<lambda>a b. Team_compare tb (team_objects (calcTeams \<sigma>) ! a) (team_objects (calcTeams \<sigma>) ! b))
         (teams \<sigma>)"
  "submissions (buildStatistics (rankOrganizations (rankTeams (sortTeams tb (calcTeams \<sigma>)))))
     = submissions \<sigma>"
  "options (buildStatistics (rankOrganizations (rankTeams (sortTeams tb (calcTeams \<sigma>)))))
     = options \<sigma>"
  by (simp_all add: buildStatistics_def rankOrganizations_def rankTeams_def sortTeams_def
      calcTeams_def split: option.splits)

lemma finish_order:
  "rankOrganizations (rankTeams (x\<lparr>teamSolvedNum := h\<rparr>))
     = (rankOrganizations (rankTeams x))\<lparr>teamSolvedNum := h\<rparr>"
  "buildStatistics (y\<lparr>teamSolvedNum := h\<rparr>) = buildStatistics y"
  by (simp_all add: rankOrganizations_def rankTeams_def buildStatistics_def split: option.splits)

lemma Team_compare_le:
  "Team_compare tb a b \<le> 0 \<longleftrightarrow>
     solvedProblemNum b < solvedProblemNum a
     \<or> (solvedProblemNum a = solvedProblemNum b
        \<and> (penalty a < penalty b \<or> (penalty a = penalty b \<and> tb a b \<le> 0)))"
  by (auto simp: Team_compare_def)

lemma consistent_Team_compare:
  assumes "consistent tb"
  shows "consistent (Team_compare tb)"
proof -
  from assms have total: "tb a b \<le> 0 \<or> tb b a \<le> 0" for a b
    unfolding consistent_def by blast
  from assms have trans: "tb a b \<le> 0 \<Longrightarrow> tb b c \<le> 0 \<Longrightarrow> tb a c \<le> 0" for a b c
    unfolding consistent_def by blast
  have 1: "Team_compare tb a b \<le> 0 \<or> Team_compare tb b a \<le> 0" for a b
    using total [of a b] unfolding Team_compare_le by linarith
  have 2: "Team_compare tb a c \<le> 0"
    if ab: "Team_compare tb a b \<le> 0" and bc: "Team_compare tb b c \<le> 0" for a b c
  proof -
    consider "solvedProblemNum b < solvedProblemNum a \<or> solvedProblemNum c < solvedProblemNum b"
      | "solvedProblemNum a = solvedProblemNum b" "solvedProblemNum b = solvedProblemNum c"
        "penalty a < penalty b \<or> penalty b < penalty c"
      | "solvedProblemNum a = solvedProblemNum b" "solvedProblemNum b = solvedProblemNum c"
        "penalty a = penalty b" "penalty b = penalty c" "tb a b \<le> 0" "tb b c \<le> 0"
      using ab bc unfolding Team_compare_le by linarith
    then show ?thesis
    proof cases
      case 1
      with ab bc show ?thesis unfolding Team_compare_le by linarith
    next
      case 2
      with ab bc show ?thesis unfolding Team_compare_le by linarith
    next
      case 3
      with trans [of a b c] show ?thesis unfolding Team_compare_le by simp
    qed
  qed
  from 1 2 show ?thesis
    unfolding consistent_def by blast
qed

lemma map_pair_zip: "map (\<lambda>t. (f t, g t)) xs = zip (map f xs) (map g xs)"
  by (induction xs) simp_all

lemma consistent_on_objects:
  assumes "consistent cmp"
  shows "consistent (\<lambda>a b. cmp (st ! a) (st ! b))"
  using assms unfolding consistent_def by blast

lemma distinct_sort_js: "distinct (sort_js cmp xs) = distinct xs"
  by (metis mset_sort_js distinct_count_atmost_1 set_mset_mset)

lemma Rank_inv_build_state: "Rank_inv (build_state r ss) = Rank_inv r"
proof (rule Rank_inv_cong)
  show "length (team_objects (build_state r ss)) = length (team_objects r)"
    using build_state_frame(5) [of r ss] by (metis length_map)
qed (simp_all add: build_state_frame)

lemma Rank_inv_buildRank:
  assumes "Rank_inv r"
  shows "Rank_inv (buildRank tb r)"
proof -
  let ?\<sigma> = "build_state r (getSubmissions r)"
  have "length (team_objects (buildRank tb r)) = length (team_objects ?\<sigma>)"
    using buildRank_statistics(2) [of tb r] by (metis length_map)
  moreover have "length (team_objects ?\<sigma>) = length (team_objects r)"
    using build_state_frame(5) [of r "getSubmissions r"] by (metis length_map)
  ultimately show ?thesis
    using assms unfolding Rank_inv_def buildRank_build_state finish_frame
    by (simp add: distinct_sort_js set_sort_js build_state_frame)
qed

lemma Rank_inv_new_Rank: "Rank_inv (new_Rank c ts ss)"
  by (auto simp: Rank_inv_def new_Rank_def sorted_sort_js consistent_Submission_compare)

lemma buildRank_idem:
  assumes inv: "Rank_inv r" and tb: "consistent tb"
  shows "buildRank tb (buildRank tb r) = buildRank tb r"
proof -
  let ?r' = "buildRank tb r"
  let ?ss = "getSubmissions r"
  let ?\<sigma> = "build_state r ?ss"
  let ?S = "team_objects (calcTeams ?\<sigma>)"
  let ?cmp = "\<lambda>a b. Team_compare tb (?S ! a) (?S ! b)"
  let ?resetP = "\<lambda>p. p\<lparr>statistics := ProblemStatistics_reset (statistics p)\<rparr>"
  have inv': "Rank_inv ?r'"
    using inv by (rule Rank_inv_buildRank)
  have inv\<sigma>: "Rank_inv ?\<sigma>"
    using inv by (simp add: Rank_inv_build_state)
  have r': "?r' = buildStatistics (rankOrganizations (rankTeams (sortTeams tb (calcTeams ?\<sigma>))))"
    by (rule buildRank_build_state)
  have frame: "teams ?r' = sort_js ?cmp (teams r)" "submissions ?r' = submissions r"
    "options ?r' = options r" "contest ?r' = contest ?\<sigma>"
    unfolding r' by (simp_all add: finish_frame finish_contest build_state_frame)
  have ss': "getSubmissions ?r' = ?ss"
    by (simp add: getSubmissions_def frame)
  have ids: "map id_t (team_objects ?r') = map id_t (team_objects r)"
    "map organization (team_objects ?r') = map organization (team_objects r)"
    unfolding r'
    by (simp_all add: finish_map calcSolvedData_def build_state_frame)
  have cframe: "(contest ?r')\<lparr>problems := []\<rparr> = (contest r)\<lparr>problems := []\<rparr>"
    "map id_p (problems (contest ?r')) = map id_p (problems (contest r))"
    by (simp_all add: frame build_state_frame)
  have plen: "length (problems (contest ?r')) = length (problems (contest r))"
    using cframe(2) by (metis length_map)
  have objs0: "map (resetTeam (contest ?r')) (team_objects ?r')
      = map (resetTeam (contest r)) (team_objects r)"
  proof (rule map_eq_by_key [where k = "\<lambda>t. (id_t t, organization t)"])
    show "map (\<lambda>t. (id_t t, organization t)) (team_objects ?r')
        = map (\<lambda>t. (id_t t, organization t)) (team_objects r)"
      using ids by (simp add: map_pair_zip)
  next
    fix x y :: Team
    assume "(id_t x, organization x) = (id_t y, organization y)"
    then show "resetTeam (contest ?r') x = resetTeam (contest r) y"
      using Contest_frame_fields(1) [OF cframe(1)] plen by (intro resetTeam_eq) simp_all
  qed
  have probs0: "map ?resetP (problems (contest ?r')) = map ?resetP (problems (contest r))"
    using cframe(2) by (rule map_eq_by_key) (rule reset_statistics_eq)
  have reset': "resetProblems (resetTeams ?r')
      = (resetProblems (resetTeams r))\<lparr>teams := teams ?r', teamSolvedNum := teamSolvedNum ?r'\<rparr>"
    unfolding resets_all [OF inv] resets_all [OF inv']
    by (intro Rank_eqI)
      (simp_all add: objs0 probs0 frame(2,3) Contest_problems_eqI [OF cframe(1)])
  have \<sigma>': "build_state ?r' (getSubmissions ?r')
      = ?\<sigma>\<lparr>teams := teams ?r', teamSolvedNum := teamSolvedNum ?r'\<rparr>"
    by (simp add: build_state_def ss' reset' replay_order)
  let ?\<sigma>' = "?\<sigma>\<lparr>teams := teams ?r', teamSolvedNum := teamSolvedNum ?r'\<rparr>"
  have inv\<sigma>': "Rank_inv ?\<sigma>'"
    using inv' \<sigma>' by (metis Rank_inv_build_state)
  have calc': "calcTeams ?\<sigma>' = (calcTeams ?\<sigma>)\<lparr>teams := teams ?r', teamSolvedNum := teamSolvedNum ?r'\<rparr>"
    unfolding calcTeams_all [OF inv\<sigma>] calcTeams_all [OF inv\<sigma>'] by simp
  have "consistent ?cmp"
    using tb by (intro consistent_on_objects consistent_Team_compare)
  then have "sort_js ?cmp (sort_js ?cmp (teams r)) = sort_js ?cmp (teams r)"
    by (intro sort_js_sorted_id sorted_sort_js)
  then have sort': "sortTeams tb (calcTeams ?\<sigma>')
      = (sortTeams tb (calcTeams ?\<sigma>))\<lparr>teamSolvedNum := teamSolvedNum ?r'\<rparr>"
    unfolding calc'
    by (intro Rank_eqI) (simp_all add: sortTeams_def frame(1) build_state_frame calcTeams_def)
  have "buildRank tb ?r'
      = buildStatistics (rankOrganizations (rankTeams (sortTeams tb (calcTeams ?\<sigma>'))))"
    unfolding buildRank_build_state [of tb ?r'] \<sigma>' ..
  also have "\<dots> = buildStatistics (rankOrganizations (rankTeams (sortTeams tb (calcTeams ?\<sigma>))))"
    unfolding sort' finish_order ..
  also have "\<dots> = ?r'"
    by (rule r' [symmetric])
  finally show ?thesis .
qed

text \<open>
  C1: for a Rank in its invariant (which the constructor establishes and buildRank
  keeps) and a comparator of teams that is consistent, a second call of buildRank gives
  the state the first call gave: the same team objects (ranks, statistics, submission
  lists), the same order of the teams, the same problem statistics and the same
  histogram.  The value returned by buildRank is the instance in that state.
\<close>

theorem C1_buildRank_idempotent:
  assumes "Rank_inv r" and "consistent tb"
  shows "buildRank tb (buildRank tb r) = buildRank tb r
     \<and> Rank_inv (buildRank tb r)
     \<and> Rank_inv (new_Rank c ts ss) \<and> Rank_inv (new_Rank c ts ss\<lparr>options := opts\<rparr>)"
  using buildRank_idem [OF assms] Rank_inv_buildRank [OF assms(1)] Rank_inv_new_Rank [of c ts ss]
  by (simp add: Rank_inv_def)

theorem C1_buildRank_idempotent_witness:
  "Rank_inv ex_rank \<and> consistent (\<lambda>a b :: Team. 0 :: int)
   \<and> buildRank (\<lambda>a b. 0) (buildRank (\<lambda>a b. 0) ex_rank) = buildRank (\<lambda>a b. 0) ex_rank
   \<and> Rank_inv (buildRank (\<lambda>a b. 0) ex_rank)"
proof -
  have c: "consistent (\<lambda>a b :: Team. 0 :: int)"
    by (simp add: consistent_def)
  from C1_buildRank_idempotent [OF ex_Rank_inv c] ex_Rank_inv c show ?thesis
    by blast
qed

subsection \<open>Rank assignment\<close>

lemma isEqualRank_rank [simp]:
  "isEqualRank (x\<lparr>rank := a\<rparr>) y = isEqualRank x y"
  "isEqualRank x (y\<lparr>rank := a\<rparr>) = isEqualRank x y"
  by (simp_all add: isEqualRank_def)

lemma assignRank_other:
  "i \<notin> set ts \<Longrightarrow> assignRank ts rk pre st ! i = st ! i"
proof (induction ts arbitrary: rk pre st)
  case Nil
  then show ?case by simp
next
  case (Cons t ts)
  then have "i \<noteq> t" "i \<notin> set ts" by auto
  with Cons.IH show ?case
    by (simp add: Let_def split: option.splits)
qed

lemma assignRank_length: "length (assignRank ts rk pre st) = length st"
  using assignRank_map [where g = "\<lambda>_. ()", of ts rk pre st] by (metis length_map)

text \<open>The first step of the walk, seen from outside.\<close>

lemma assignRank_Cons:
  assumes "t < length st" and "\<forall>p. pre = Some p \<longrightarrow> p \<noteq> t"
  obtains st2 where "assignRank (t # ts) rk pre st = assignRank ts (Suc rk) (Some t) st2"
    and "length st2 = length st" and "\<And>i. i \<noteq> t \<Longrightarrow> st2 ! i = st ! i"
    and "solvedProblemNum (st2 ! t) = solvedProblemNum (st ! t)"
    and "penalty (st2 ! t) = penalty (st ! t)"
    and "rank (st2 ! t) = (case pre of None \<Rightarrow> rk
          | Some p \<Rightarrow> if isEqualRank (st ! t) (st ! p) then rank (st ! p) else rk)"
proof -
  define st1 where "st1 = st[t := (st ! t)\<lparr>rank := rk\<rparr>]"
  define st2 where "st2 = (case pre of None \<Rightarrow> st1
    | Some p \<Rightarrow> if isEqualRank (st1 ! t) (st1 ! p)
        then st1[t := (st1 ! t)\<lparr>rank := rank (st1 ! p)\<rparr>] else st1)"
  have 1: "st1 ! t = (st ! t)\<lparr>rank := rk\<rparr>" "\<And>i. i \<noteq> t \<Longrightarrow> st1 ! i = st ! i"
    "length st1 = length st"
    using assms(1) by (simp_all add: st1_def)
  show ?thesis
  proof (rule that [of st2])
    show "assignRank (t # ts) rk pre st = assignRank ts (Suc rk) (Some t) st2"
      unfolding st2_def st1_def by (simp add: Let_def)
    show "length st2 = length st"
      by (simp add: st2_def 1 split: option.splits)
    show "st2 ! i = st ! i" if "i \<noteq> t" for i
      using that by (simp add: st2_def 1 split: option.splits)
    show "solvedProblemNum (st2 ! t) = solvedProblemNum (st ! t)"
      using assms(1) by (simp add: st2_def 1 split: option.splits)
    show "penalty (st2 ! t) = penalty (st ! t)"
      using assms(1) by (simp add: st2_def 1 split: option.splits)
    show "rank (st2 ! t) = (case pre of None \<Rightarrow> rk
          | Some p \<Rightarrow> if isEqualRank (st ! t) (st ! p) then rank (st ! p) else rk)"
      using assms by (auto simp add: st2_def 1 split: option.splits)
  qed
qed

lemma isEqualRank_cong:
  "solvedProblemNum x = solvedProblemNum x' \<Longrightarrow> penalty x = penalty x' \<Longrightarrow>
   solvedProblemNum y = solvedProblemNum y' \<Longrightarrow> penalty y = penalty y' \<Longrightarrow>
   isEqualRank x y = isEqualRank x' y'"
  by (simp add: isEqualRank_def)

lemma assignRank_rank:
  assumes "distinct ts" and "set ts \<subseteq> {..<length st}" and "\<forall>p. pre = Some p \<longrightarrow> p \<notin> set ts"
    and "k < length ts"
  shows "rank (assignRank ts rk pre st ! (ts ! k)) =
     (if k = 0 then
        (case pre of None \<Rightarrow> rk
         | Some p \<Rightarrow> if isEqualRank (st ! (ts ! 0)) (st ! p) then rank (st ! p) else rk)
      else if isEqualRank (st ! (ts ! k)) (st ! (ts ! (k - 1)))
        then rank (assignRank ts rk pre st ! (ts ! (k - 1)))
      else rk + k)"
  using assms
proof (induction ts arbitrary: rk pre st k)
  case Nil
  then show ?case by simp
next
  case (Cons t ts)
  from Cons.prems have t: "t < length st" "t \<notin> set ts" "\<forall>p. pre = Some p \<longrightarrow> p \<noteq> t"
    by auto
  from assignRank_Cons [OF t(1,3), of ts rk] obtain st2 where
    step: "assignRank (t # ts) rk pre st = assignRank ts (Suc rk) (Some t) st2"
    and len: "length st2 = length st" and other: "\<And>i. i \<noteq> t \<Longrightarrow> st2 ! i = st ! i"
    and key: "solvedProblemNum (st2 ! t) = solvedProblemNum (st ! t)"
      "penalty (st2 ! t) = penalty (st ! t)"
    and rk: "rank (st2 ! t) = (case pre of None \<Rightarrow> rk
          | Some p \<Rightarrow> if isEqualRank (st ! t) (st ! p) then rank (st ! p) else rk)"
    by blast
  have res_t: "assignRank ts (Suc rk) (Some t) st2 ! t = st2 ! t"
    using t(2) by (rule assignRank_other)
  have in_ts: "st2 ! (ts ! m) = st ! (ts ! m)" if "m < length ts" for m
    using that t(2) by (intro other) (metis nth_mem)
  show ?case
  proof (cases k)
    case 0
    then show ?thesis
      by (simp add: step res_t rk del: assignRank.simps split: option.splits)
  next
    case (Suc k')
    with Cons.prems have k': "k' < length ts" by simp
    have IH: "rank (assignRank ts (Suc rk) (Some t) st2 ! (ts ! k')) =
       (if k' = 0 then
          (if isEqualRank (st2 ! (ts ! 0)) (st2 ! t) then rank (st2 ! t) else Suc rk)
        else if isEqualRank (st2 ! (ts ! k')) (st2 ! (ts ! (k' - 1)))
          then rank (assignRank ts (Suc rk) (Some t) st2 ! (ts ! (k' - 1)))
        else Suc rk + k')"
      using Cons.prems t(2) k' by (subst Cons.IH) (simp_all add: len)
    show ?thesis
    proof (cases k')
      case 0
      have "isEqualRank (st2 ! (ts ! 0)) (st2 ! t) = isEqualRank (st ! (ts ! 0)) (st ! t)"
        using in_ts [of 0] k' 0 key by (intro isEqualRank_cong) simp_all
      with IH 0 Suc show ?thesis
        by (simp add: step res_t del: assignRank.simps)
    next
      case (Suc k'')
      then have "k' - 1 < length ts" using k' by simp
      with IH Suc \<open>k = Suc k'\<close> k' show ?thesis
        by (simp add: step in_ts del: assignRank.simps)
    qed
  qed
qed

lemma sorted_sort_insert_weak:
  assumes le1: "\<And>a b. cmp a b \<le> 0 \<Longrightarrow> le a b" and le2: "\<And>a b. \<not> cmp a b \<le> 0 \<Longrightarrow> le b a"
    and tr: "\<And>a b c. le a b \<Longrightarrow> le b c \<Longrightarrow> le a c"
    and "sorted_wrt le xs"
  shows "sorted_wrt le (sort_insert cmp x xs)"
  using assms(4)
proof (induction xs)
  case Nil
  then show ?case by simp
next
  case (Cons y ys)
  show ?case
  proof (cases "cmp x y \<le> 0")
    case True
    then have "le x y" by (rule le1)
    with Cons.prems tr have "\<forall>z\<in>set ys. le x z" by auto
    with True \<open>le x y\<close> Cons.prems show ?thesis by simp
  next
    case False
    then have "le y x" by (rule le2)
    with False Cons show ?thesis
      by (auto simp: set_sort_insert)
  qed
qed

lemma sorted_sort_js_weak:
  assumes "\<And>a b. cmp a b \<le> 0 \<Longrightarrow> le a b" and "\<And>a b. \<not> cmp a b \<le> 0 \<Longrightarrow> le b a"
    and "\<And>a b c. le a b \<Longrightarrow> le b c \<Longrightarrow> le a c"
  shows "sorted_wrt le (sort_js cmp xs)"
proof (induction xs)
  case Nil
  then show ?case by simp
next
  case (Cons x xs)
  then show ?case
    using sorted_sort_insert_weak [of cmp le "sort_js cmp xs" x] assms by simp
qed

lemma sorted_teams:
  "sorted_wrt (\<lambda>a b. better_or_equal (st ! a) (st ! b))
     (sort_js (\<lambda>a b. Team_compare tb (st ! a) (st ! b)) ts)"
proof (rule sorted_sort_js_weak)
  fix a b
  show "Team_compare tb (st ! a) (st ! b) \<le> 0 \<Longrightarrow> better_or_equal (st ! a) (st ! b)"
    unfolding Team_compare_le better_or_equal_def by linarith
  show "\<not> Team_compare tb (st ! a) (st ! b) \<le> 0 \<Longrightarrow> better_or_equal (st ! b) (st ! a)"
    unfolding Team_compare_le better_or_equal_def by linarith
next
  fix a b c
  show "better_or_equal (st ! a) (st ! b) \<Longrightarrow> better_or_equal (st ! b) (st ! c)
      \<Longrightarrow> better_or_equal (st ! a) (st ! c)"
    unfolding better_or_equal_def by linarith
qed

lemma better_or_equal_antisym:
  "better_or_equal x y \<Longrightarrow> better_or_equal y x \<Longrightarrow> isEqualRank x y"
  unfolding better_or_equal_def isEqualRank_def by linarith

text \<open>A walk with the recurrence of the rank assignment over a sorted sequence.\<close>

lemma tied_positions:
  fixes rk :: "nat \<Rightarrow> nat"
  assumes rec: "\<And>k. k < n \<Longrightarrow> 0 < k \<Longrightarrow> eq k (k - 1) \<Longrightarrow> rk k = rk (k - 1)"
    and sorted: "\<And>a b. a \<le> b \<Longrightarrow> b < n \<Longrightarrow> le a b"
    and antisym: "\<And>a b. le a b \<Longrightarrow> le b a \<Longrightarrow> eq a b"
    and eq_le: "\<And>a b. eq a b \<Longrightarrow> le b a"
    and le_trans: "\<And>a b c. le a b \<Longrightarrow> le b c \<Longrightarrow> le a c"
    and "a \<le> b" and "b < n" and "eq a b"
  shows "rk b = rk a"
  using assms(6-8)
proof (induction b)
  case 0
  then show ?case by simp
next
  case (Suc b)
  show ?case
  proof (cases "a = Suc b")
    case True
    then show ?thesis by simp
  next
    case False
    with Suc.prems have ab: "a \<le> b" "b < n" by simp_all
    have "le a b" using ab by (rule sorted)
    moreover have "le b a"
    proof -
      have "le b (Suc b)" using Suc.prems by (intro sorted) simp_all
      moreover have "le (Suc b) a" using Suc.prems(3) eq_le
        by (metis antisym le_trans sorted Suc.prems(1,2))
      ultimately show ?thesis by (rule le_trans)
    qed
    ultimately have eq_ab: "eq a b" by (rule antisym)
    have "le (Suc b) b"
      using \<open>le b a\<close> Suc.prems sorted [of a "Suc b"] eq_le le_trans
      by (metis antisym \<open>le a b\<close>)
    moreover have "le b (Suc b)" using Suc.prems by (intro sorted) simp_all
    ultimately have "eq (Suc b) b"
      by (intro antisym)
    with rec [of "Suc b"] Suc.prems have "rk (Suc b) = rk b" by simp
    with Suc.IH [OF ab eq_ab] show ?thesis by simp
  qed
qed

lemma buildRank_objects:
  fixes tb r
  defines "S \<equiv> team_objects (calcTeams (build_state r (getSubmissions r)))"
  shows "teams (buildRank tb r) = sort_js (\<lambda>a b. Team_compare tb (S ! a) (S ! b)) (teams r)"
    and "map rank (team_objects (buildRank tb r))
           = map rank (assignRank (teams (buildRank tb r)) 1 None S)"
    and "map solvedProblemNum (team_objects (buildRank tb r)) = map solvedProblemNum S"
    and "map penalty (team_objects (buildRank tb r)) = map penalty S"
proof -
  let ?\<sigma> = "build_state r (getSubmissions r)"
  let ?X = "sortTeams tb (calcTeams ?\<sigma>)"
  have X: "team_objects ?X = S" "teams ?X = sort_js (\<lambda>a b. Team_compare tb (S ! a) (S ! b)) (teams r)"
    by (simp_all add: sortTeams_def S_def calcTeams_def build_state_frame)
  have fin: "map g (team_objects (buildRank tb r)) = map g (assignRank (teams ?X) 1 None S)"
    if "\<And>t x. g (t\<lparr>organizationRank := x\<rparr>) = g t" for g :: "Team \<Rightarrow> 'b"
    unfolding buildRank_build_state
    by (simp add: buildStatistics_def rankOrganizations_def rankTeams_def X
        assignOrganizationRank_map [where g = g] that split: option.splits)
  show T: "teams (buildRank tb r) = sort_js (\<lambda>a b. Team_compare tb (S ! a) (S ! b)) (teams r)"
    unfolding buildRank_build_state finish_frame by (simp add: S_def build_state_frame)
  show "map rank (team_objects (buildRank tb r))
      = map rank (assignRank (teams (buildRank tb r)) 1 None S)"
    by (simp add: fin T X)
  show "map solvedProblemNum (team_objects (buildRank tb r)) = map solvedProblemNum S"
    by (simp add: fin assignRank_map)
  show "map penalty (team_objects (buildRank tb r)) = map penalty S"
    by (simp add: fin assignRank_map)
qed

lemma map_nth_eq:
  assumes "map g xs = map g ys" and "i < length ys"
  shows "g (xs ! i) = g (ys ! i)"
proof -
  from assms(1) have "length xs = length ys" by (metis length_map)
  with assms show ?thesis by (metis nth_map)
qed

lemma ranked_recurrence:
  assumes "Rank_inv r" and "k < length (teams (buildRank tb r))"
  shows "rank (ranked (buildRank tb r) k) =
     (if 0 < k \<and> isEqualRank (ranked (buildRank tb r) k) (ranked (buildRank tb r) (k - 1))
      then rank (ranked (buildRank tb r) (k - 1)) else k + 1)"
proof -
  let ?r' = "buildRank tb r"
  let ?S = "team_objects (calcTeams (build_state r (getSubmissions r)))"
  let ?T = "teams ?r'"
  let ?A = "assignRank ?T 1 None ?S"
  note obj = buildRank_objects [of tb r]
  have inv': "Rank_inv ?r'"
    using assms(1) by (rule Rank_inv_buildRank)
  have lenS: "length ?S = length (team_objects ?r')"
    using obj(3) by (metis length_map)
  have lenA: "length ?A = length (team_objects ?r')"
    by (simp add: assignRank_length lenS)
  have dT: "distinct ?T" and sT: "set ?T = {..<length (team_objects ?r')}"
    using inv' by (simp_all add: Rank_inv_def)
  have valid: "?T ! m < length (team_objects ?r')" if "m < length ?T" for m
    using that sT by (metis lessThan_iff nth_mem)
  have rk: "rank (ranked ?r' m) = rank (?A ! (?T ! m))" if "m < length ?T" for m
    unfolding ranked_def using obj(2) valid [OF that] lenA by (intro map_nth_eq) simp_all
  have eq: "isEqualRank (ranked ?r' m) (ranked ?r' m') = isEqualRank (?S ! (?T ! m)) (?S ! (?T ! m'))"
    if "m < length ?T" "m' < length ?T" for m m'
    unfolding ranked_def
    using obj(3,4) valid [OF that(1)] valid [OF that(2)] lenS
    by (intro isEqualRank_cong map_nth_eq) simp_all
  have rec: "rank (?A ! (?T ! k)) =
     (if k = 0 then 1
      else if isEqualRank (?S ! (?T ! k)) (?S ! (?T ! (k - 1)))
        then rank (?A ! (?T ! (k - 1))) else 1 + k)"
    using dT sT assms(2) lenS by (subst assignRank_rank) simp_all
  show ?thesis
  proof (cases k)
    case 0
    with rec rk [OF assms(2)] show ?thesis by simp
  next
    case (Suc k')
    with assms(2) have k': "k - 1 < length ?T" by simp
    from rec rk [OF assms(2)] rk [OF k'] eq [OF assms(2) k'] Suc show ?thesis
      by simp
  qed
qed

lemma ranked_sorted:
  assumes "Rank_inv r" and "a \<le> b" and "b < length (teams (buildRank tb r))"
  shows "better_or_equal (ranked (buildRank tb r) a) (ranked (buildRank tb r) b)"
proof -
  let ?r' = "buildRank tb r"
  let ?S = "team_objects (calcTeams (build_state r (getSubmissions r)))"
  let ?T = "teams ?r'"
  note obj = buildRank_objects [of tb r]
  have inv': "Rank_inv ?r'"
    using assms(1) by (rule Rank_inv_buildRank)
  have lenS: "length ?S = length (team_objects ?r')"
    using obj(3) by (metis length_map)
  have sT: "set ?T = {..<length (team_objects ?r')}"
    using inv' by (simp add: Rank_inv_def)
  have valid: "?T ! m < length ?S" if "m < length ?T" for m
    using that sT lenS by (metis lessThan_iff nth_mem)
  have key: "solvedProblemNum (ranked ?r' m) = solvedProblemNum (?S ! (?T ! m))"
    "penalty (ranked ?r' m) = penalty (?S ! (?T ! m))" if "m < length ?T" for m
    unfolding ranked_def using obj(3,4) valid [OF that] by (intro map_nth_eq; simp)+
  have "sorted_wrt (\<lambda>a b. better_or_equal (?S ! a) (?S ! b)) ?T"
    unfolding obj(1) by (rule sorted_teams)
  then have "better_or_equal (?S ! (?T ! a)) (?S ! (?T ! b))" if "a < b"
    using that assms(3) by (simp add: sorted_wrt_iff_nth_less)
  moreover have "better_or_equal (?S ! (?T ! a)) (?S ! (?T ! a))"
    by (simp add: better_or_equal_def)
  ultimately have "better_or_equal (?S ! (?T ! a)) (?S ! (?T ! b))"
    using assms(2) by (cases "a = b") simp_all
  then show ?thesis
    using key [of a] key [of b] assms(2,3) by (simp add: better_or_equal_def)
qed

lemma isEqualRank_better: "isEqualRank x y \<Longrightarrow> better_or_equal y x"
  by (simp add: isEqualRank_def better_or_equal_def)

lemma better_or_equal_trans:
  "better_or_equal x y \<Longrightarrow> better_or_equal y z \<Longrightarrow> better_or_equal x z"
  unfolding better_or_equal_def by linarith

lemma ranked_tied:
  assumes inv: "Rank_inv r" and "a \<le> b" and "b < length (teams (buildRank tb r))"
    and "isEqualRank (ranked (buildRank tb r) a) (ranked (buildRank tb r) b)"
  shows "rank (ranked (buildRank tb r) b) = rank (ranked (buildRank tb r) a)"
proof (rule tied_positions [where n = "length (teams (buildRank tb r))"
      and eq = "\<lambda>a b. isEqualRank (ranked (buildRank tb r) a) (ranked (buildRank tb r) b)"
      and le = "\<lambda>a b. better_or_equal (ranked (buildRank tb r) a) (ranked (buildRank tb r) b)"
      and rk = "\<lambda>k. rank (ranked (buildRank tb r) k)"])
  fix k assume "k < length (teams (buildRank tb r))" "0 < k"
    "isEqualRank (ranked (buildRank tb r) k) (ranked (buildRank tb r) (k - 1))"
  then show "rank (ranked (buildRank tb r) k) = rank (ranked (buildRank tb r) (k - 1))"
    using ranked_recurrence [OF inv, of k tb] by simp
next
  fix a b assume "a \<le> b" "b < length (teams (buildRank tb r))"
  then show "better_or_equal (ranked (buildRank tb r) a) (ranked (buildRank tb r) b)"
    using inv by (intro ranked_sorted)
qed (use assms in \<open>auto intro: better_or_equal_antisym isEqualRank_better better_or_equal_trans\<close>)

lemma equal_key_equal_rank:
  assumes inv: "Rank_inv r"
    and i: "i < length (team_objects (buildRank tb r))"
    and j: "j < length (team_objects (buildRank tb r))"
    and eq: "isEqualRank (team_objects (buildRank tb r) ! i) (team_objects (buildRank tb r) ! j)"
  shows "rank (team_objects (buildRank tb r) ! i) = rank (team_objects (buildRank tb r) ! j)"
proof -
  let ?r' = "buildRank tb r"
  have "set (teams ?r') = {..<length (team_objects ?r')}"
    using Rank_inv_buildRank [OF inv, of tb] by (simp add: Rank_inv_def)
  with i j obtain a b where a: "a < length (teams ?r')" "teams ?r' ! a = i"
    and b: "b < length (teams ?r')" "teams ?r' ! b = j"
    by (metis in_set_conv_nth lessThan_iff)
  have ra: "ranked ?r' a = team_objects ?r' ! i" and rb: "ranked ?r' b = team_objects ?r' ! j"
    by (simp_all add: ranked_def a b)
  show ?thesis
  proof (cases "a \<le> b")
    case True
    from ranked_tied [OF inv True b(1)] eq show ?thesis
      by (simp add: ra rb)
  next
    case False
    then have "b \<le> a" by simp
    moreover from eq have "isEqualRank (team_objects ?r' ! j) (team_objects ?r' ! i)"
      by (simp add: isEqualRank_def)
    ultimately show ?thesis
      using ranked_tied [OF inv _ a(1), where a = b] by (simp add: ra rb)
  qed
qed

text \<open>
  C4: after the sort, the array of teams is in the order of the ranking keys, and the
  walk gives the team at position \<open>k\<close> (counted from 0) the rank of the team before it
  when isEqualRank holds between the two, and \<open>k + 1\<close> otherwise (so the first team
  has rank 1).  Hence two teams with the same number of solved problems and the same
  penalty have the same rank; and when the second team is not equal in rank to the
  first and the third is equal in rank to the second, the ranks are 1, 2 and 2.
\<close>

theorem C4_rank_assignment:
  assumes "Rank_inv r"
  shows "(\<forall>k<length (teams (buildRank tb r)).
            rank (ranked (buildRank tb r) k) =
              (if 0 < k \<and> isEqualRank (ranked (buildRank tb r) k) (ranked (buildRank tb r) (k - 1))
               then rank (ranked (buildRank tb r) (k - 1)) else k + 1))
     \<and> (\<forall>a b. a \<le> b \<and> b < length (teams (buildRank tb r)) \<longrightarrow>
            better_or_equal (ranked (buildRank tb r) a) (ranked (buildRank tb r) b))
     \<and> (\<forall>i<length (team_objects (buildRank tb r)). \<forall>j<length (team_objects (buildRank tb r)).
            solvedProblemNum (team_objects (buildRank tb r) ! i)
              = solvedProblemNum (team_objects (buildRank tb r) ! j)
            \<and> penalty (team_objects (buildRank tb r) ! i) = penalty (team_objects (buildRank tb r) ! j)
            \<longrightarrow> rank (team_objects (buildRank tb r) ! i) = rank (team_objects (buildRank tb r) ! j))
     \<and> (2 < length (teams (buildRank tb r))
          \<and> \<not> isEqualRank (ranked (buildRank tb r) 1) (ranked (buildRank tb r) 0)
          \<and> isEqualRank (ranked (buildRank tb r) 2) (ranked (buildRank tb r) 1)
        \<longrightarrow> rank (ranked (buildRank tb r) 0) = 1 \<and> rank (ranked (buildRank tb r) 1) = 2
            \<and> rank (ranked (buildRank tb r) 2) = 2)"
proof -
  let ?r' = "buildRank tb r"
  note rec = ranked_recurrence [OF assms, of _ tb]
  have "rank (ranked ?r' 0) = 1 \<and> rank (ranked ?r' 1) = 2 \<and> rank (ranked ?r' 2) = 2"
    if "2 < length (teams ?r')" "\<not> isEqualRank (ranked ?r' 1) (ranked ?r' 0)"
      "isEqualRank (ranked ?r' 2) (ranked ?r' 1)"
  proof -
    from that(1) have "0 < length (teams ?r')" "1 < length (teams ?r')" by linarith+
    with rec [of 0] rec [of 1] rec [of 2] that show ?thesis by simp
  qed
  moreover have "rank (team_objects ?r' ! i) = rank (team_objects ?r' ! j)"
    if "i < length (team_objects ?r')" "j < length (team_objects ?r')"
      "solvedProblemNum (team_objects ?r' ! i) = solvedProblemNum (team_objects ?r' ! j)"
      "penalty (team_objects ?r' ! i) = penalty (team_objects ?r' ! j)" for i j
    using equal_key_equal_rank [OF assms that(1,2)] that(3,4) by (simp add: isEqualRank_def)
  ultimately show ?thesis
    using rec ranked_sorted [OF assms, of _ _ tb] by blast
qed

lemma ex_calc:
  "map (\<lambda>t. (solvedProblemNum t, penalty t))
     (team_objects (calcTeams (build_state ex_rank ex_submissions)))
   = [(1, 4200), (1, 4200), (2, 7000)]"
  by (simp add: calcTeams_def calcSolvedData_def penalty_ps_def build_state_def ex_defs
      build_defs Let_def upt_rec)

lemma ex_ranked:
  "teams (buildRank (\<lambda>a b. 0) ex_rank) = [2, 0, 1]"
  "isEqualRank (ranked (buildRank (\<lambda>a b. 0) ex_rank) 2) (ranked (buildRank (\<lambda>a b. 0) ex_rank) 1)"
  "\<not> isEqualRank (ranked (buildRank (\<lambda>a b. 0) ex_rank) 1) (ranked (buildRank (\<lambda>a b. 0) ex_rank) 0)"
  "map id_t (team_objects (buildRank (\<lambda>a b. 0) ex_rank)) = [''t1'', ''t2'', ''t3'']"
proof -
  let ?S = "team_objects (calcTeams (build_state ex_rank ex_submissions))"
  let ?r' = "buildRank (\<lambda>a b. 0) ex_rank"
  note obj = buildRank_objects [of "\<lambda>a b. 0" ex_rank, unfolded ex_getSubmissions]
  have len: "length ?S = 3"
    using arg_cong [OF ex_calc, of length] by simp
  have keys: "solvedProblemNum (?S ! 0) = 1" "penalty (?S ! 0) = 4200"
    "solvedProblemNum (?S ! Suc 0) = 1" "penalty (?S ! Suc 0) = 4200"
    "solvedProblemNum (?S ! 2) = 2" "penalty (?S ! 2) = 7000"
    using arg_cong [OF ex_calc, of "\<lambda>xs. xs ! 0"] arg_cong [OF ex_calc, of "\<lambda>xs. xs ! 1"]
      arg_cong [OF ex_calc, of "\<lambda>xs. xs ! 2"] len
    by simp_all
  have tr: "teams ex_rank = [0, 1, 2]"
    by (simp add: ex_rank_def)
  show T: "teams ?r' = [2, 0, 1]"
    unfolding obj(1) tr by (simp add: Team_compare_def keys)
  have len': "length (team_objects ?r') = 3"
    using obj(3) len by (metis length_map)
  have k: "solvedProblemNum (team_objects ?r' ! i) = solvedProblemNum (?S ! i)"
    "penalty (team_objects ?r' ! i) = penalty (?S ! i)" if "i < 3" for i
    using obj(3,4) that len by (intro map_nth_eq; simp)+
  show "isEqualRank (ranked ?r' 2) (ranked ?r' 1)"
    "\<not> isEqualRank (ranked ?r' 1) (ranked ?r' 0)"
    by (simp_all add: ranked_def T isEqualRank_def k keys)
  show "map id_t (team_objects ?r') = [''t1'', ''t2'', ''t3'']"
    unfolding buildRank_build_state
    by (simp add: finish_map calcSolvedData_def build_state_frame) (simp add: ex_defs)
qed

theorem C4_rank_assignment_witness:
  "Rank_inv ex_rank
   \<and> 2 < length (teams (buildRank (\<lambda>a b. 0) ex_rank))
   \<and> \<not> isEqualRank (ranked (buildRank (\<lambda>a b. 0) ex_rank) 1) (ranked (buildRank (\<lambda>a b. 0) ex_rank) 0)
   \<and> isEqualRank (ranked (buildRank (\<lambda>a b. 0) ex_rank) 2) (ranked (buildRank (\<lambda>a b. 0) ex_rank) 1)
   \<and> teams (buildRank (\<lambda>a b. 0) ex_rank) = [2, 0, 1]
   \<and> map id_t (team_objects (buildRank (\<lambda>a b. 0) ex_rank)) = [''t1'', ''t2'', ''t3'']
   \<and> rank (ranked (buildRank (\<lambda>a b. 0) ex_rank) 0) = 1
   \<and> rank (ranked (buildRank (\<lambda>a b. 0) ex_rank) 1) = 2
   \<and> rank (ranked (buildRank (\<lambda>a b. 0) ex_rank) 2) = 2
   \<and> rank (team_objects (buildRank (\<lambda>a b. 0) ex_rank) ! 0)
       = rank (team_objects (buildRank (\<lambda>a b. 0) ex_rank) ! 1)"
proof -
  let ?r' = "buildRank (\<lambda>a b. 0) ex_rank"
  have len: "2 < length (teams ?r')"
    by (simp add: ex_ranked(1))
  note c4 = C4_rank_assignment [OF ex_Rank_inv, of "\<lambda>a b. 0"]
  from c4 len ex_ranked(2,3)
  have r: "rank (ranked ?r' 0) = 1 \<and> rank (ranked ?r' 1) = 2 \<and> rank (ranked ?r' 2) = 2"
    by blast
  then have "rank (team_objects ?r' ! 0) = rank (team_objects ?r' ! 1)"
    by (simp add: ranked_def ex_ranked(1))
  with r len ex_ranked ex_Rank_inv show ?thesis
    by blast
qed

subsection \<open>The histogram\<close>

text \<open>
  The index that line 195 increments is inside the array of line 193: a team has at
  most as many solved problems as the contest has problems.
\<close>

lemma solvedProblemNum_in_range:
  assumes "Rank_inv r" and "i < length (team_objects (buildRank tb r))"
  shows "solvedProblemNum (team_objects (buildRank tb r) ! i)
           < length (problems (contest (buildRank tb r))) + 1"
proof -
  let ?\<sigma> = "build_state r (getSubmissions r)"
  let ?S = "team_objects (calcTeams ?\<sigma>)"
  note obj = buildRank_objects [of tb r]
  have inv\<sigma>: "Rank_inv ?\<sigma>"
    using assms(1) by (simp add: Rank_inv_build_state)
  have S: "?S = map calcSolvedData (team_objects ?\<sigma>)"
    by (simp add: calcTeams_all [OF inv\<sigma>])
  have len: "length (team_objects (buildRank tb r)) = length (team_objects ?\<sigma>)"
    using obj(3) S by (metis length_map)
  have "shaped ?\<sigma>"
    using build_state_inv(1) [OF assms(1), of "getSubmissions r" "[]"]
    by (simp add: first_solve_inv_def)
  with assms(2) len
  have "length (problemStatistics (team_objects ?\<sigma> ! i)) = length (problems (contest ?\<sigma>))"
    by (simp add: shaped_def)
  moreover have "solvedProblemNum (team_objects (buildRank tb r) ! i)
      = length (filter isSolved (problemStatistics (team_objects ?\<sigma> ! i)))"
  proof -
    have "solvedProblemNum (team_objects (buildRank tb r) ! i) = solvedProblemNum (?S ! i)"
      using obj(3) assms(2) len S by (intro map_nth_eq) simp_all
    with assms(2) len show ?thesis
      by (simp add: S calcSolvedData_def)
  qed
  moreover have "length (filter isSolved (problemStatistics (team_objects ?\<sigma> ! i)))
      \<le> length (problemStatistics (team_objects ?\<sigma> ! i))"
    by (rule length_filter_le)
  ultimately show ?thesis
    by (simp add: buildRank_statistics(1))
qed

end
